theory Spec2Isabelle
  imports Main "HOL-Library.Monad_Syntax"
begin

section \<open>Go slices over a store of backing arrays\<close>

text \<open>
  The queue of \<^verbatim>\<open>queue.go\<close> is a struct with one field, a Go slice. A slice is a
  header (pointer, length, capacity) into a backing array that other slices may share,
  and the methods of the queue write into that array in place. The store is therefore
  explicit: a heap is the list of all backing arrays allocated so far, the address of an
  array is its position in that list, and allocation appends.

  A header is modelled by the address of its array (\<open>None\<close> for the nil slice), the
  offset of its first element in the array, its length and its capacity.
  A runtime panic (index or slice bounds out of range, negative length for
  \<^verbatim>\<open>make\<close>) is the value \<open>None\<close> of an operation.
\<close>

type_synonym 'a heap = "'a list list"

record slice =
  base :: "nat option"
  off :: nat
  len :: nat
  cap :: nat

definition nil_slice :: slice where
  "nil_slice = \<lparr>base = None, off = 0, len = 0, cap = 0\<rparr>"

text \<open>The elements a slice shows, first to last.\<close>

definition elems :: "'a heap \<Rightarrow> slice \<Rightarrow> 'a list" where
  "elems h s = (case base s of
       None \<Rightarrow> []
     | Some a \<Rightarrow> take (len s) (drop (off s) (h ! a)))"

text \<open>
  A header is well formed in a heap when its array exists and its window lies inside it.
  Every header the Go runtime hands out is well formed. Lengths and indices are
  unbounded numbers here: a Go length never exceeds the largest \<^verbatim>\<open>int\<close>, so the
  arithmetic of the methods (\<^verbatim>\<open>q.Size()-1\<close>, \<^verbatim>\<open>i+1\<close>, \<^verbatim>\<open>j-1\<close>) cannot wrap.
\<close>

definition wf_slice :: "'a heap \<Rightarrow> slice \<Rightarrow> bool" where
  "wf_slice h s = (case base s of
       None \<Rightarrow> len s = 0 \<and> cap s = 0
     | Some a \<Rightarrow> a < length h \<and> len s \<le> cap s \<and> off s + cap s \<le> length (h ! a))"

text \<open>\<^verbatim>\<open>s[i]\<close> as a value: panics unless \<open>0 \<le> i < len(s)\<close>.\<close>

definition index :: "'a heap \<Rightarrow> slice \<Rightarrow> int \<Rightarrow> 'a option" where
  "index h s i = (case base s of
       None \<Rightarrow> None
     | Some a \<Rightarrow>
         if 0 \<le> i \<and> i < int (len s) \<and> a < length h \<and> off s + nat i < length (h ! a)
         then Some (h ! a ! (off s + nat i)) else None)"

text \<open>\<^verbatim>\<open>s[i] = v\<close>: panics unless \<open>0 \<le> i < len(s)\<close>, writes into the backing array.\<close>

definition store :: "'a heap \<Rightarrow> slice \<Rightarrow> int \<Rightarrow> 'a \<Rightarrow> 'a heap option" where
  "store h s i v = (case base s of
       None \<Rightarrow> None
     | Some a \<Rightarrow>
         if 0 \<le> i \<and> i < int (len s) \<and> a < length h \<and> off s + nat i < length (h ! a)
         then Some (h[a := (h ! a)[off s + nat i := v]]) else None)"

text \<open>\<^verbatim>\<open>s[low:]\<close>: panics unless \<open>0 \<le> low \<le> len(s)\<close>; the array is shared.\<close>

definition slice_from :: "slice \<Rightarrow> int \<Rightarrow> slice option" where
  "slice_from s low =
     (if 0 \<le> low \<and> low \<le> int (len s)
      then Some (s\<lparr>off := off s + nat low, len := len s - nat low, cap := cap s - nat low\<rparr>)
      else None)"

text \<open>
  \<^verbatim>\<open>make([]T, n)\<close>: a new array of \<open>n\<close> zero values (\<open>z\<close> is the zero value of the
  element type) and a header over all of it; panics when \<open>n\<close> is negative.
\<close>

definition make_slice :: "'a \<Rightarrow> 'a heap \<Rightarrow> int \<Rightarrow> ('a heap \<times> slice) option" where
  "make_slice z h n =
     (if n < 0 then None
      else Some (h @ [replicate (nat n) z],
                 \<lparr>base = Some (length h), off = 0, len = nat n, cap = nat n\<rparr>))"

text \<open>Overwriting a block of an array from position \<open>p\<close> on.\<close>

definition write_at :: "nat \<Rightarrow> 'a list \<Rightarrow> 'a list \<Rightarrow> 'a list" where
  "write_at p xs arr = take p arr @ xs @ drop (p + length xs) arr"

text \<open>
  \<^verbatim>\<open>copy(dst, src)\<close>: the first \<open>min(len(dst), len(src))\<close> elements of \<open>src\<close> are
  written over the start of \<open>dst\<close>; never panics.
\<close>

definition copy :: "'a heap \<Rightarrow> slice \<Rightarrow> slice \<Rightarrow> 'a heap" where
  "copy h dst src =
     (let n = min (len dst) (len src) in
      case base dst of
        None \<Rightarrow> h
      | Some a \<Rightarrow> h[a := write_at (off dst) (take n (elems h src)) (h ! a)])"

text \<open>
  \<^verbatim>\<open>append(s, x)\<close>: when the capacity has room the element is written into the shared
  array just behind the window; otherwise the window is copied into a new, larger array.
  How much larger is the runtime's business: \<open>g\<close> is its growth policy (old capacity and
  needed length to new capacity), and the runtime never allocates less than is needed.
\<close>

definition append_elem ::
  "(nat \<Rightarrow> nat \<Rightarrow> nat) \<Rightarrow> 'a \<Rightarrow> 'a heap \<Rightarrow> slice \<Rightarrow> 'a \<Rightarrow> 'a heap \<times> slice" where
  "append_elem g z h s x =
     (case (if len s < cap s then base s else None) of
        Some a \<Rightarrow> (h[a := (h ! a)[off s + len s := x]], s\<lparr>len := len s + 1\<rparr>)
      | None \<Rightarrow>
          (let c = max (len s + 1) (g (cap s) (len s + 1))
           in (h @ [elems h s @ x # replicate (c - (len s + 1)) z],
               \<lparr>base = Some (length h), off = 0, len = len s + 1, cap = c\<rparr>)))"

text \<open>
  \<^verbatim>\<open>slices.Index(s, v)\<close>: the position of the first element equal to \<open>v\<close>, or \<open>-1\<close>.
  Go's \<^verbatim>\<open>==\<close> on the element type is HOL equality; element types on which \<^verbatim>\<open>==\<close> is
  not an equivalence (floating-point NaN) or can panic (interface values holding
  incomparable data) are outside this model.
\<close>

fun Index_from :: "'a list \<Rightarrow> 'a \<Rightarrow> int \<Rightarrow> int" where
  "Index_from [] v i = - 1"
| "Index_from (y # ys) v i = (if v = y then i else Index_from ys v (i + 1))"

definition slices_Index :: "'a heap \<Rightarrow> slice \<Rightarrow> 'a \<Rightarrow> int" where
  "slices_Index h s v = Index_from (elems h s) v 0"

text \<open>\<^verbatim>\<open>slices.Contains(s, v)\<close> is \<^verbatim>\<open>Index(s, v) >= 0\<close>.\<close>

definition slices_Contains :: "'a heap \<Rightarrow> slice \<Rightarrow> 'a \<Rightarrow> bool" where
  "slices_Contains h s v = (0 \<le> slices_Index h s v)"

text \<open>
  \<^verbatim>\<open>slices.Delete(s, i, j)\<close>: panics unless \<open>0 \<le> i \<le> j \<le> len(s)\<close>; the elements
  behind \<open>j\<close> move down to \<open>i\<close> inside the same array, the slots that fall out of
  the window are set to the zero value (as the standard library does since Go 1.22; they
  lie outside every window the queue reads), and the header returned is shorter by
  \<open>j - i\<close>.
\<close>

definition slices_Delete ::
  "'a \<Rightarrow> 'a heap \<Rightarrow> slice \<Rightarrow> int \<Rightarrow> int \<Rightarrow> ('a heap \<times> slice) option" where
  "slices_Delete z h s i j =
     (if \<not> (0 \<le> i \<and> i \<le> j \<and> j \<le> int (len s)) then None
      else if i = j then Some (h, s)
      else case base s of
        None \<Rightarrow> None
      | Some a \<Rightarrow>
          (let kept = take (nat i) (elems h s) @ drop (nat j) (elems h s)
           in Some (h[a := write_at (off s) (kept @ replicate (nat (j - i)) z) (h ! a)],
                    s\<lparr>len := len s - nat (j - i)\<rparr>)))"

text \<open>
  \<^verbatim>\<open>fmt\<close> prints a slice under \<^verbatim>\<open>%v\<close> as an opening bracket, the elements in
  order with one space before each but the first, and a closing bracket. \<open>pv\<close> prints
  one element. A nil slice prints as an empty one.
\<close>

function printValue_loop :: "('a \<Rightarrow> string) \<Rightarrow> 'a list \<Rightarrow> nat \<Rightarrow> string \<Rightarrow> string" where
  "printValue_loop pv xs i buf =
     (if i < length xs
      then printValue_loop pv xs (i + 1)
             ((if 0 < i then buf @ '' '' else buf) @ pv (xs ! i))
      else buf)"
  by pat_completeness auto
termination
  by (relation "measure (\<lambda>(pv, xs, i, buf). length xs - i)") auto

declare printValue_loop.simps [simp del]

definition printValue :: "('a \<Rightarrow> string) \<Rightarrow> 'a list \<Rightarrow> string" where
  "printValue pv xs = printValue_loop pv xs 0 ''['' @ '']''"

text \<open>\<^verbatim>\<open>%v\<close> of an integer: decimal digits, with a minus sign when negative.\<close>

function fmt_nat :: "nat \<Rightarrow> string" where
  "fmt_nat n =
     (if n < 10 then [char_of (48 + n)]
      else fmt_nat (n div 10) @ [char_of (48 + n mod 10)])"
  by pat_completeness auto
termination
  by (relation "measure id") auto

declare fmt_nat.simps [simp del]

definition fmt_int :: "int \<Rightarrow> string" where
  "fmt_int i = (if i < 0 then ''-'' @ fmt_nat (nat (- i)) else fmt_nat (nat i))"


section \<open>The queue\<close>

text \<open>
  \<^verbatim>\<open>type Queue[T comparable] struct { data []T }\<close>. Every method has a pointer
  receiver; it is modelled as a function from the state before the call (the heap and
  the struct) to its results and the state after the call, under the name it has in the
  source. Methods that can reach a panic return an option. What the element type and
  the runtime contribute is passed in: \<open>z\<close> is the zero value of \<open>T\<close>, \<open>g\<close> the growth
  policy of \<^verbatim>\<open>append\<close>, \<open>pv\<close> the way \<^verbatim>\<open>fmt\<close> prints one element.
  \<^verbatim>\<open>fmt.Errorf("empty queue")\<close> is the value \<open>Errorf ''empty queue''\<close>, and a nil
  error is \<open>None\<close>.
\<close>

record queue =
  data :: slice

type_synonym 'a state = "'a heap \<times> queue"

datatype error = Errorf string

definition NewQueue :: queue where
  "NewQueue = \<lparr>data = nil_slice\<rparr>"

definition IsEmpty :: "'a state \<Rightarrow> bool \<times> 'a state" where
  "IsEmpty st = (case st of (h, q) \<Rightarrow> (len (data q) = 0, (h, q)))"

definition Size :: "'a state \<Rightarrow> int \<times> 'a state" where
  "Size st = (case st of (h, q) \<Rightarrow> (int (len (data q)), (h, q)))"

definition Enqueue :: "(nat \<Rightarrow> nat \<Rightarrow> nat) \<Rightarrow> 'a \<Rightarrow> 'a \<Rightarrow> 'a state \<Rightarrow> 'a state" where
  "Enqueue g z x st = (case st of (h, q) \<Rightarrow>
     (case append_elem g z h (data q) x of (h', s) \<Rightarrow> (h', q\<lparr>data := s\<rparr>)))"

definition Dequeue :: "'a \<Rightarrow> 'a state \<Rightarrow> (('a \<times> error option) \<times> 'a state) option" where
  "Dequeue z st = (case IsEmpty st of (e, (h, q)) \<Rightarrow>
     if e then Some ((z, Some (Errorf ''empty queue'')), (h, q))
     else do {
       head \<leftarrow> index h (data q) 0;
       rest \<leftarrow> slice_from (data q) 1;
       Some ((head, None), (h, q\<lparr>data := rest\<rparr>))
     })"

definition Front :: "'a \<Rightarrow> 'a state \<Rightarrow> (('a \<times> error option) \<times> 'a state) option" where
  "Front z st = (case IsEmpty st of (e, (h, q)) \<Rightarrow>
     if e then Some ((z, Some (Errorf ''empty queue'')), (h, q))
     else do {
       head \<leftarrow> index h (data q) 0;
       Some ((head, None), (h, q))
     })"

definition PeekLast :: "'a \<Rightarrow> 'a state \<Rightarrow> (('a \<times> error option) \<times> 'a state) option" where
  "PeekLast z st = (case IsEmpty st of (e, st1) \<Rightarrow>
     if e then Some ((z, Some (Errorf ''empty queue'')), st1)
     else (case Size st1 of (n, (h, q)) \<Rightarrow> do {
       v \<leftarrow> index h (data q) (n - 1);
       Some ((v, None), (h, q))
     }))"

definition Clear :: "'a \<Rightarrow> 'a state \<Rightarrow> 'a state option" where
  "Clear z st = (case st of (h, q) \<Rightarrow> do {
     (h', s) \<leftarrow> make_slice z h 0;
     Some (h', q\<lparr>data := s\<rparr>)
   })"

definition String :: "('a \<Rightarrow> string) \<Rightarrow> 'a state \<Rightarrow> string \<times> 'a state" where
  "String pv st = (case st of (h, q) \<Rightarrow>
     (''Queue: '' @ printValue pv (elems h (data q)), (h, q)))"

definition Contains :: "'a \<Rightarrow> 'a state \<Rightarrow> bool \<times> 'a state" where
  "Contains x st = (case st of (h, q) \<Rightarrow> (slices_Contains h (data q) x, (h, q)))"

definition ToSlice :: "'a \<Rightarrow> 'a state \<Rightarrow> (slice \<times> 'a state) option" where
  "ToSlice z st = (case Size st of (n, (h, q)) \<Rightarrow> do {
     (h1, result) \<leftarrow> make_slice z h n;
     Some (result, (copy h1 result (data q), q))
   })"

text \<open>
  \<^verbatim>\<open>for i, v := range q.data\<close> evaluates \<^verbatim>\<open>q.data\<close> once; \<open>s\<close> is that header and
  \<open>i\<close> the position the loop has reached.
\<close>

function Remove_loop :: "'a \<Rightarrow> 'a \<Rightarrow> slice \<Rightarrow> nat \<Rightarrow> 'a state \<Rightarrow> (bool \<times> 'a state) option" where
  "Remove_loop z x s i st =
     (if i < len s then
        (case index (fst st) s (int i) of
           None \<Rightarrow> None
         | Some v \<Rightarrow>
             if v = x then
               (case slices_Delete z (fst st) (data (snd st)) (int i) (int i + 1) of
                  None \<Rightarrow> None
                | Some (h', s') \<Rightarrow> Some (True, (h', (snd st)\<lparr>data := s'\<rparr>)))
             else Remove_loop z x s (i + 1) st)
      else Some (False, st))"
  by pat_completeness auto
termination
  by (relation "measure (\<lambda>(z, x, s, i, st). len s - i)") auto

declare Remove_loop.simps [simp del]

definition Remove :: "'a \<Rightarrow> 'a \<Rightarrow> 'a state \<Rightarrow> (bool \<times> 'a state) option" where
  "Remove z x st = Remove_loop z x (data (snd st)) 0 st"

definition Copy :: "'a \<Rightarrow> 'a state \<Rightarrow> (queue \<times> 'a state) option" where
  "Copy z st = (case Size st of (n, (h, q)) \<Rightarrow> do {
     (h1, newData) \<leftarrow> make_slice z h n;
     Some (\<lparr>data = newData\<rparr>, (copy h1 newData (data q), q))
   })"

text \<open>
  The loop of \<^verbatim>\<open>Reverse\<close>. The two right-hand sides of the swap are read first, then
  the two stores happen left to right.
\<close>

function Reverse_loop :: "int \<Rightarrow> int \<Rightarrow> 'a state \<Rightarrow> 'a state option" where
  "Reverse_loop i j st =
     (if i < j then
        (case index (fst st) (data (snd st)) j of
           None \<Rightarrow> None
         | Some vj \<Rightarrow>
        (case index (fst st) (data (snd st)) i of
           None \<Rightarrow> None
         | Some vi \<Rightarrow>
        (case store (fst st) (data (snd st)) i vj of
           None \<Rightarrow> None
         | Some h1 \<Rightarrow>
        (case store h1 (data (snd st)) j vi of
           None \<Rightarrow> None
         | Some h2 \<Rightarrow> Reverse_loop (i + 1) (j - 1) (h2, snd st)))))
      else Some st)"
  by pat_completeness auto
termination
  by (relation "measure (\<lambda>(i, j, st). nat (j - i))") auto

declare Reverse_loop.simps [simp del]

definition Reverse :: "'a state \<Rightarrow> 'a state option" where
  "Reverse st = (case Size st of (n, st1) \<Rightarrow> Reverse_loop 0 (n - 1) st1)"


section \<open>Observations and programs over the queue\<close>

text \<open>The element sequence of a queue, head to tail, and the well-formedness of its header.\<close>

definition contents :: "'a state \<Rightarrow> 'a list" where
  "contents st = elems (fst st) (data (snd st))"

definition wf_state :: "'a state \<Rightarrow> bool" where
  "wf_state st = wf_slice (fst st) (data (snd st))"

text \<open>
  \<open>modifies a h h'\<close>: from \<open>h\<close> to \<open>h'\<close> arrays were only added, no array changed
  its size, and the only array whose elements may differ is the one at \<open>a\<close>.
\<close>

definition modifies :: "nat option \<Rightarrow> 'a heap \<Rightarrow> 'a heap \<Rightarrow> bool" where
  "modifies a h h' \<longleftrightarrow>
     length h \<le> length h' \<and>
     (\<forall>b<length h. length (h' ! b) = length (h ! b) \<and> (a \<noteq> Some b \<longrightarrow> h' ! b = h ! b))"

text \<open>
  A method call takes \<open>st\<close> to \<open>st'\<close> touching only the queue's own array, and the
  queue's header afterwards points to that array or to one allocated during the call.
\<close>

definition evolves :: "'a state \<Rightarrow> 'a state \<Rightarrow> bool" where
  "evolves st st' \<longleftrightarrow>
     wf_state st' \<and>
     modifies (base (data (snd st))) (fst st) (fst st') \<and>
     (base (data (snd st')) = base (data (snd st)) \<or>
      (case base (data (snd st')) of None \<Rightarrow> False | Some a \<Rightarrow> length (fst st) \<le> a))"

text \<open>Two headers that share no array.\<close>

definition separate :: "slice \<Rightarrow> slice \<Rightarrow> bool" where
  "separate s t \<longleftrightarrow> base s = None \<or> base s \<noteq> base t"

text \<open>
  A client program of \<^verbatim>\<open>Enqueue\<close> and \<^verbatim>\<open>Dequeue\<close> calls in any interleaving; running it
  collects what each \<^verbatim>\<open>Dequeue\<close> returned, in call order.
\<close>

datatype 'a call = CallEnqueue 'a | CallDequeue

fun run :: "(nat \<Rightarrow> nat \<Rightarrow> nat) \<Rightarrow> 'a \<Rightarrow> 'a call list \<Rightarrow> 'a state \<Rightarrow>
    (('a \<times> error option) list \<times> 'a state) option" where
  "run g z [] st = Some ([], st)"
| "run g z (CallEnqueue x # cs) st = run g z cs (Enqueue g z x st)"
| "run g z (CallDequeue # cs) st =
     (case Dequeue z st of
        None \<Rightarrow> None
      | Some (r, st') \<Rightarrow>
          (case run g z cs st' of
             None \<Rightarrow> None
           | Some (rs, st'') \<Rightarrow> Some (r # rs, st'')))"

definition enqueues :: "'a call list \<Rightarrow> nat" where
  "enqueues cs = length (filter (\<lambda>c. c \<noteq> CallDequeue) cs)"

definition successes :: "('a \<times> error option) list \<Rightarrow> nat" where
  "successes rs = length (filter (\<lambda>r. snd r = None) rs)"

text \<open>The mutating methods, and a program that mutates two queues living in one heap.\<close>

datatype 'a mutation = MEnqueue 'a | MDequeue | MClear | MRemove 'a | MReverse

fun mutate :: "(nat \<Rightarrow> nat \<Rightarrow> nat) \<Rightarrow> 'a \<Rightarrow> 'a mutation \<Rightarrow> 'a state \<Rightarrow> 'a state option" where
  "mutate g z (MEnqueue x) st = Some (Enqueue g z x st)"
| "mutate g z MDequeue st = map_option snd (Dequeue z st)"
| "mutate g z MClear st = Clear z st"
| "mutate g z (MRemove x) st = map_option snd (Remove z x st)"
| "mutate g z MReverse st = Reverse st"

fun mutate_all :: "(nat \<Rightarrow> nat \<Rightarrow> nat) \<Rightarrow> 'a \<Rightarrow> 'a mutation list \<Rightarrow> 'a state \<Rightarrow>
    'a state option" where
  "mutate_all g z [] st = Some st"
| "mutate_all g z (m # ms) st =
     (case mutate g z m st of
        None \<Rightarrow> None
      | Some st' \<Rightarrow> mutate_all g z ms st')"

datatype side = Source | Duplicate

fun run2 :: "(nat \<Rightarrow> nat \<Rightarrow> nat) \<Rightarrow> 'a \<Rightarrow> (side \<times> 'a mutation) list \<Rightarrow>
    'a heap \<times> queue \<times> queue \<Rightarrow> ('a heap \<times> queue \<times> queue) option" where
  "run2 g z [] w = Some w"
| "run2 g z ((Source, m) # ms) (h, a, b) =
     (case mutate g z m (h, a) of
        None \<Rightarrow> None
      | Some (h', a') \<Rightarrow> run2 g z ms (h', a', b))"
| "run2 g z ((Duplicate, m) # ms) (h, a, b) =
     (case mutate g z m (h, b) of
        None \<Rightarrow> None
      | Some (h', b') \<Rightarrow> run2 g z ms (h', a, b'))"

text \<open>
  What a caller can do to a slice it holds: assign an element, or append. A sequence of
  such writes follows the header as \<^verbatim>\<open>s = append(s, x)\<close> replaces it.
\<close>

datatype 'a slice_write = Assign int 'a | Append 'a

fun apply_writes :: "(nat \<Rightarrow> nat \<Rightarrow> nat) \<Rightarrow> 'a \<Rightarrow> 'a slice_write list \<Rightarrow> 'a heap \<times> slice \<Rightarrow>
    ('a heap \<times> slice) option" where
  "apply_writes g z [] hs = Some hs"
| "apply_writes g z (Assign i v # ws) (h, s) =
     (case store h s i v of
        None \<Rightarrow> None
      | Some h' \<Rightarrow> apply_writes g z ws (h', s))"
| "apply_writes g z (Append v # ws) (h, s) = apply_writes g z ws (append_elem g z h s v)"

text \<open>
  The format the specification gives for the string form: the printed elements,
  separated by single spaces.
\<close>

fun join_space :: "string list \<Rightarrow> string" where
  "join_space [] = []"
| "join_space [s] = s"
| "join_space (s # t # ts) = s @ '' '' @ join_space (t # ts)"

text \<open>
  The reading methods and what a caller sees of one call: the values returned, with a
  returned slice seen through its elements.
\<close>

datatype 'a reading =
  ReadDequeue | ReadFront | ReadPeekLast | ReadIsEmpty | ReadSize | ReadContains 'a
  | ReadToSlice | ReadString

datatype 'a seen =
  Returned 'a "error option" | Truth bool | Number int | Elements "'a list" | Text string
  | Panicked

fun observe :: "('a \<Rightarrow> string) \<Rightarrow> 'a \<Rightarrow> 'a reading \<Rightarrow> 'a state \<Rightarrow> 'a seen" where
  "observe pv z ReadDequeue st =
     (case Dequeue z st of None \<Rightarrow> Panicked | Some ((v, e), st') \<Rightarrow> Returned v e)"
| "observe pv z ReadFront st =
     (case Front z st of None \<Rightarrow> Panicked | Some ((v, e), st') \<Rightarrow> Returned v e)"
| "observe pv z ReadPeekLast st =
     (case PeekLast z st of None \<Rightarrow> Panicked | Some ((v, e), st') \<Rightarrow> Returned v e)"
| "observe pv z ReadIsEmpty st = Truth (fst (IsEmpty st))"
| "observe pv z ReadSize st = Number (fst (Size st))"
| "observe pv z (ReadContains x) st = Truth (fst (Contains x st))"
| "observe pv z ReadToSlice st =
     (case ToSlice z st of None \<Rightarrow> Panicked | Some (r, st') \<Rightarrow> Elements (elems (fst st') r))"
| "observe pv z ReadString st = Text (fst (String pv st))"

text \<open>
  A concrete run for the examples: the queue of integers after \<^verbatim>\<open>Enqueue(10)\<close>,
  \<^verbatim>\<open>Enqueue(20)\<close>, \<^verbatim>\<open>Enqueue(30)\<close> on a new queue in an empty heap, under a runtime
  that doubles the capacity when it grows a slice.
\<close>

definition doubling :: "nat \<Rightarrow> nat \<Rightarrow> nat" where
  "doubling c n = 2 * c"

definition example :: "int state" where
  "example = Enqueue doubling 0 30 (Enqueue doubling 0 20 (Enqueue doubling 0 10 ([], NewQueue)))"


section \<open>Slices and the heap: what each runtime operation does\<close>

lemma modifies_refl: "modifies a h h"
  by (simp add: modifies_def)

lemma modifies_trans:
  "modifies a h h1 \<Longrightarrow> modifies a h1 h2 \<Longrightarrow> modifies a h h2"
  by (auto simp: modifies_def)

lemma modifies_fresh:
  "modifies a h h1 \<Longrightarrow> modifies (Some b) h1 h2 \<Longrightarrow> length h \<le> b \<Longrightarrow> modifies a h h2"
  by (auto simp: modifies_def)

lemma modifies_other:
  assumes "modifies a h h'" "wf_slice h t" "base t \<noteq> a \<or> base t = None"
  shows "wf_slice h' t \<and> elems h' t = elems h t"
  using assms by (auto simp: modifies_def wf_slice_def elems_def split: option.splits)

lemma modifies_wf:
  "modifies a h h' \<Longrightarrow> wf_slice h t \<Longrightarrow> wf_slice h' t"
  by (auto simp: modifies_def wf_slice_def split: option.splits)

lemma elems_nil: "elems h nil_slice = []"
  by (simp add: elems_def nil_slice_def)

lemma wf_nil: "wf_slice h nil_slice"
  by (simp add: wf_slice_def nil_slice_def)

lemma length_elems: "wf_slice h s \<Longrightarrow> length (elems h s) = len s"
  by (auto simp: wf_slice_def elems_def split: option.splits)

lemma index_elems:
  "wf_slice h s \<Longrightarrow> 0 \<le> i \<Longrightarrow> i < int (len s) \<Longrightarrow> index h s i = Some (elems h s ! nat i)"
  by (auto simp: wf_slice_def elems_def index_def split: option.splits)

lemma store_elems:
  assumes "wf_slice h s" "0 \<le> i" "i < int (len s)"
  shows "\<exists>h'. store h s i v = Some h' \<and> elems h' s = (elems h s)[nat i := v]
            \<and> wf_slice h' s \<and> modifies (base s) h h'"
  using assms
  by (auto simp: wf_slice_def elems_def store_def modifies_def nth_list_update take_update_swap drop_update_swap split: option.splits)

lemma slice_from_elems:
  assumes "wf_slice h s" "0 \<le> low" "low \<le> int (len s)"
  shows "\<exists>s'. slice_from s low = Some s' \<and> elems h s' = drop (nat low) (elems h s)
            \<and> wf_slice h s' \<and> base s' = base s"
  using assms
  by (auto simp: wf_slice_def elems_def slice_from_def drop_take add.commute split: option.splits)

lemma make_slice_elems:
  assumes "0 \<le> n"
  shows "\<exists>h' s. make_slice z h n = Some (h', s) \<and> elems h' s = replicate (nat n) z
            \<and> wf_slice h' s \<and> modifies None h h' \<and> base s = Some (length h) \<and> len s = nat n
            \<and> length h' = Suc (length h)"
  using assms
  by (auto simp: wf_slice_def elems_def make_slice_def modifies_def nth_append)

lemma take_Suc_update:
  "n < length ys \<Longrightarrow> take (Suc n) (ys[n := x]) = take n ys @ [x]"
  by (simp add: take_Suc_conv_app_nth)

lemma take_drop_update_end:
  "p + n < length arr \<Longrightarrow> take (Suc n) (drop p (arr[p + n := x])) = take n (drop p arr) @ [x]"
  by (simp add: drop_update_swap take_Suc_update)

lemma append_elem_elems:
  assumes "wf_slice h s" "append_elem g z h s x = (h', s')"
  shows "elems h' s' = elems h s @ [x] \<and> wf_slice h' s' \<and> modifies (base s) h h'
         \<and> (base s' = base s \<or> (\<exists>a. base s' = Some a \<and> length h \<le> a))"
  using assms
  by (auto simp: wf_slice_def elems_def append_elem_def modifies_def nth_append Let_def nth_list_update take_drop_update_end split: option.splits if_splits)

lemma length_write_at:
  "p + length xs \<le> length arr \<Longrightarrow> length (write_at p xs arr) = length arr"
  by (simp add: write_at_def)

lemma window_write_at:
  "p + length xs \<le> length arr \<Longrightarrow> length xs \<le> n \<Longrightarrow>
   take n (drop p (write_at p xs arr)) = xs @ take (n - length xs) (drop (p + length xs) arr)"
  by (simp add: write_at_def)

lemma window_write_at_exact:
  "p + length xs \<le> length arr \<Longrightarrow>
   take (length xs) (drop p (write_at p xs arr)) = xs"
  by (simp add: write_at_def)

lemma take_length_append: "take (length xs) (xs @ ys) = xs"
  by simp

lemma copy_elems:
  assumes "wf_slice h dst" "wf_slice h src" "base dst \<noteq> base src \<or> len dst = 0"
  shows "elems (copy h dst src) dst =
           take (min (len dst) (len src)) (elems h src) @ drop (min (len dst) (len src)) (elems h dst)
         \<and> wf_slice (copy h dst src) dst \<and> modifies (base dst) h (copy h dst src)"
proof (cases "base dst")
  case None
  with assms show ?thesis
    by (simp add: copy_def Let_def modifies_refl elems_def wf_slice_def)
next
  case (Some a)
  let ?n = "min (len dst) (len src)"
  let ?xs = "take ?n (elems h src)"
  from assms Some have a: "a < length h" and c: "len dst \<le> cap dst"
    and b: "off dst + cap dst \<le> length (h ! a)"
    by (auto simp: wf_slice_def)
  have lx: "length ?xs = ?n" using assms(2) by (simp add: length_elems)
  have fit: "off dst + length ?xs \<le> length (h ! a)" using lx b c by simp
  have h': "copy h dst src = h[a := write_at (off dst) ?xs (h ! a)]"
    using Some by (simp add: copy_def Let_def)
  have e: "elems (copy h dst src) dst = ?xs @ take (len dst - ?n) (drop (off dst + ?n) (h ! a))"
    using window_write_at[OF fit, of "len dst"] lx a Some
    by (simp add: h' elems_def)
  have "drop ?n (elems h dst) = take (len dst - ?n) (drop (off dst + ?n) (h ! a))"
    using Some by (simp add: elems_def drop_take add.commute)
  with e have 1: "elems (copy h dst src) dst = ?xs @ drop ?n (elems h dst)" by simp
  have 2: "wf_slice (copy h dst src) dst"
    using a b c Some length_write_at[OF fit] by (simp add: h' wf_slice_def)
  have 3: "modifies (base dst) h (copy h dst src)"
    using a Some length_write_at[OF fit] by (auto simp: h' modifies_def nth_list_update)
  from 1 2 3 show ?thesis by simp
qed

lemma slices_Delete_elems:
  assumes "wf_slice h s" "i < len s"
  shows "\<exists>h' s'. slices_Delete z h s (int i) (int i + 1) = Some (h', s')
           \<and> elems h' s' = take i (elems h s) @ drop (Suc i) (elems h s)
           \<and> wf_slice h' s' \<and> modifies (base s) h h' \<and> base s' = base s"
proof (cases "base s")
  case None
  with assms show ?thesis by (simp add: wf_slice_def)
next
  case (Some a)
  let ?xs = "elems h s"
  let ?kept = "take i ?xs @ drop (Suc i) ?xs"
  let ?blk = "?kept @ replicate (nat (int i + 1 - int i)) z"
  let ?h' = "h[a := write_at (off s) ?blk (h ! a)]"
  let ?s' = "s\<lparr>len := len s - nat (int i + 1 - int i)\<rparr>"
  from assms Some have a: "a < length h" and c: "len s \<le> cap s"
    and b: "off s + cap s \<le> length (h ! a)"
    by (auto simp: wf_slice_def)
  have lk: "length ?kept = len s - 1" using assms by (simp add: length_elems)
  have lb: "length ?blk = len s" using lk assms by simp
  have fit: "off s + length ?blk \<le> length (h ! a)" using lb b c by simp
  have n1: "nat (int i + 1) = Suc i" by simp
  have d: "slices_Delete z h s (int i) (int i + 1) = Some (?h', ?s')"
    using assms Some by (simp add: slices_Delete_def Let_def n1)
  have "take (len s - 1) (drop (off s) (write_at (off s) ?blk (h ! a))) = take (len s - 1) (take (length ?blk) (drop (off s) (write_at (off s) ?blk (h ! a))))"
    using lb by simp
  also have "\<dots> = take (len s - 1) ?blk"
    using window_write_at_exact[OF fit] by simp
  also have "\<dots> = ?kept"
    using take_length_append[of ?kept "replicate (nat (int i + 1 - int i)) z"] by (simp only: lk)
  finally have 1: "elems ?h' ?s' = ?kept"
    using a Some by (simp add: elems_def)
  have 2: "wf_slice ?h' ?s'"
    using a b c Some length_write_at[OF fit] by (simp add: wf_slice_def)
  have 3: "modifies (base s) h ?h'"
    using a Some length_write_at[OF fit] by (auto simp: modifies_def nth_list_update)
  from d 1 2 3 Some show ?thesis by simp
qed


section \<open>What each method does to the element sequence\<close>

lemma separate_sym: "separate s t \<Longrightarrow> separate t s"
  by (auto simp: separate_def)

lemma evolves_other:
  assumes "evolves (h, a) (h', a')" "wf_state (h, b)" "separate (data a) (data b)"
  shows "wf_state (h', b) \<and> contents (h', b) = contents (h, b) \<and> separate (data a') (data b)"
proof -
  from assms(1) have m: "modifies (base (data a)) h h'"
    and e: "base (data a') = base (data a) \<or>
            (case base (data a') of None \<Rightarrow> False | Some x \<Rightarrow> length h \<le> x)"
    by (auto simp: evolves_def split: option.splits)
  from assms(2) have w: "wf_slice h (data b)" by (simp add: wf_state_def)
  from assms(3) have "base (data b) \<noteq> base (data a) \<or> base (data b) = None"
    by (auto simp: separate_def)
  from modifies_other[OF m w this]
  have 1: "wf_state (h', b) \<and> contents (h', b) = contents (h, b)"
    by (simp add: wf_state_def contents_def)
  from e w assms(3) have "separate (data a') (data b)"
    by (auto simp: separate_def wf_slice_def split: option.splits)
  with 1 show ?thesis by simp
qed

lemma length_contents: "wf_state st \<Longrightarrow> length (contents st) = len (data (snd st))"
  by (simp add: wf_state_def contents_def length_elems)

lemma contents_len0: "len (data (snd st)) = 0 \<Longrightarrow> contents st = []"
  by (simp add: contents_def elems_def split: option.splits)

lemma Enqueue_step:
  assumes "wf_state st"
  shows "contents (Enqueue g z x st) = contents st @ [x] \<and> evolves st (Enqueue g z x st)"
proof -
  obtain h q where st: "st = (h, q)" by (cases st)
  obtain h' s' where a: "append_elem g z h (data q) x = (h', s')"
    by (cases "append_elem g z h (data q) x")
  from assms st have "wf_slice h (data q)" by (simp add: wf_state_def)
  from append_elem_elems[OF this a] show ?thesis
    by (auto simp: st a Enqueue_def contents_def evolves_def wf_state_def)
qed

lemma Dequeue_empty:
  "len (data (snd st)) = 0 \<Longrightarrow> Dequeue z st = Some ((z, Some (Errorf ''empty queue'')), st)"
  by (cases st) (simp add: Dequeue_def IsEmpty_def)

lemma Front_empty:
  "len (data (snd st)) = 0 \<Longrightarrow> Front z st = Some ((z, Some (Errorf ''empty queue'')), st)"
  by (cases st) (simp add: Front_def IsEmpty_def)

lemma PeekLast_empty:
  "len (data (snd st)) = 0 \<Longrightarrow> PeekLast z st = Some ((z, Some (Errorf ''empty queue'')), st)"
  by (cases st) (simp add: PeekLast_def IsEmpty_def)

lemma Dequeue_step:
  assumes "wf_state st" "len (data (snd st)) \<noteq> 0"
  shows "\<exists>st'. Dequeue z st = Some ((hd (contents st), None), st')
            \<and> contents st' = tl (contents st) \<and> evolves st st' \<and> fst st' = fst st"
proof -
  obtain h q where st: "st = (h, q)" by (cases st)
  from assms st have w: "wf_slice h (data q)" and n: "0 < len (data q)"
    by (simp_all add: wf_state_def)
  from n have i: "index h (data q) 0 = Some (elems h (data q) ! 0)"
    using index_elems[OF w, of 0] by simp
  from n obtain s' where s: "slice_from (data q) 1 = Some s'"
    and e: "elems h s' = drop 1 (elems h (data q))" and w': "wf_slice h s'"
    and b: "base s' = base (data q)"
    using slice_from_elems[OF w, of 1] by auto
  from n w have ne: "elems h (data q) \<noteq> []" using length_elems[OF w] by auto
  have "Dequeue z st = Some ((hd (contents st), None), (h, q\<lparr>data := s'\<rparr>))"
    using n i s ne by (simp add: st Dequeue_def IsEmpty_def contents_def hd_conv_nth)
  moreover have "contents (h, q\<lparr>data := s'\<rparr>) = tl (contents st)"
    using e by (simp add: st contents_def drop_Suc)
  moreover have "evolves st (h, q\<lparr>data := s'\<rparr>)"
    using w' b by (simp add: st evolves_def wf_state_def modifies_refl)
  ultimately show ?thesis by (simp add: st)
qed

lemma Front_step:
  assumes "wf_state st" "len (data (snd st)) \<noteq> 0"
  shows "Front z st = Some ((hd (contents st), None), st)"
proof -
  obtain h q where st: "st = (h, q)" by (cases st)
  from assms st have w: "wf_slice h (data q)" and n: "0 < len (data q)"
    by (simp_all add: wf_state_def)
  from n have i: "index h (data q) 0 = Some (elems h (data q) ! 0)"
    using index_elems[OF w, of 0] by simp
  from n w have ne: "elems h (data q) \<noteq> []" using length_elems[OF w] by auto
  show ?thesis
    using n i ne by (simp add: st Front_def IsEmpty_def contents_def hd_conv_nth)
qed

lemma PeekLast_step:
  assumes "wf_state st" "len (data (snd st)) \<noteq> 0"
  shows "PeekLast z st = Some ((last (contents st), None), st)"
proof -
  obtain h q where st: "st = (h, q)" by (cases st)
  from assms st have w: "wf_slice h (data q)" and n: "0 < len (data q)"
    by (simp_all add: wf_state_def)
  from n have i: "index h (data q) (int (len (data q)) - 1) = Some (elems h (data q) ! (len (data q) - 1))"
    using index_elems[OF w, of "int (len (data q)) - 1"] by (simp add: nat_diff_distrib')
  from n w have ne: "elems h (data q) \<noteq> []" using length_elems[OF w] by auto
  show ?thesis
    using n i ne length_elems[OF w]
    by (simp add: st PeekLast_def IsEmpty_def Size_def contents_def last_conv_nth)
qed

lemma Clear_step:
  "\<exists>st'. Clear z st = Some st' \<and> contents st' = [] \<and> evolves st st'
         \<and> len (data (snd st')) = 0"
proof -
  obtain h q where st: "st = (h, q)" by (cases st)
  from make_slice_elems[of 0 z h] obtain h' s where
    m: "make_slice z h 0 = Some (h', s)" and e: "elems h' s = []" and w: "wf_slice h' s"
    and f: "modifies None h h'" and b: "base s = Some (length h)" and l: "len s = 0"
    by auto
  have f': "modifies (base (data q)) h h'"
    using f by (auto simp: modifies_def)
  show ?thesis using m e w f' b l
    by (simp add: st Clear_def contents_def evolves_def wf_state_def)
qed

lemma evolves_refl: "wf_state st \<Longrightarrow> evolves st st"
  by (simp add: evolves_def modifies_refl)

lemma fresh_copy:
  assumes "wf_slice h src"
  shows "\<exists>h1 r. make_slice z h (int (len src)) = Some (h1, r)
           \<and> elems (copy h1 r src) r = elems h src
           \<and> wf_slice (copy h1 r src) r
           \<and> modifies None h (copy h1 r src)
           \<and> base r = Some (length h) \<and> len r = len src"
proof -
  from make_slice_elems[of "int (len src)" z h] obtain h1 r where
    m: "make_slice z h (int (len src)) = Some (h1, r)"
    and w: "wf_slice h1 r" and f: "modifies None h h1"
    and b: "base r = Some (length h)" and l: "len r = len src"
    by auto
  from modifies_other[OF f assms] have s: "wf_slice h1 src" "elems h1 src = elems h src"
    using assms by (auto simp: wf_slice_def split: option.splits)
  from assms b have d: "base r \<noteq> base src \<or> len r = 0"
    by (auto simp: wf_slice_def split: option.splits)
  from copy_elems[OF w s(1) d] have
    e: "elems (copy h1 r src) r = take (len src) (elems h1 src) @ drop (len src) (elems h1 r)"
    and w2: "wf_slice (copy h1 r src) r" and f2: "modifies (base r) h1 (copy h1 r src)"
    by (simp_all add: l)
  have "elems (copy h1 r src) r = elems h src"
    using e s(2) length_elems[OF s(1)] length_elems[OF w] l by simp
  moreover have "modifies None h (copy h1 r src)"
    using modifies_fresh[OF f, of "length h" "copy h1 r src"] f2 b by simp
  ultimately show ?thesis using m w2 b l by simp
qed

lemma Copy_step:
  assumes "wf_state st"
  shows "\<exists>c h'. Copy z st = Some (c, (h', snd st))
           \<and> contents (h', c) = contents st \<and> wf_state (h', c)
           \<and> contents (h', snd st) = contents st \<and> wf_state (h', snd st)
           \<and> separate (data (snd st)) (data c)
           \<and> len (data c) = len (data (snd st))"
proof -
  obtain h q where st: "st = (h, q)" by (cases st)
  from assms st have w: "wf_slice h (data q)" by (simp add: wf_state_def)
  from fresh_copy[OF w, of z] obtain h1 r where
    m: "make_slice z h (int (len (data q))) = Some (h1, r)"
    and e: "elems (copy h1 r (data q)) r = elems h (data q)"
    and w2: "wf_slice (copy h1 r (data q)) r"
    and f: "modifies None h (copy h1 r (data q))"
    and b: "base r = Some (length h)" and l: "len r = len (data q)"
    by auto
  from modifies_other[OF f w] have o: "wf_slice (copy h1 r (data q)) (data q)"
    "elems (copy h1 r (data q)) (data q) = elems h (data q)"
    using w by (auto simp: wf_slice_def split: option.splits)
  have sp: "separate (data q) r" using w b
    by (auto simp: separate_def wf_slice_def split: option.splits)
  have "Copy z st = Some (\<lparr>data = r\<rparr>, (copy h1 r (data q), q))"
    using m by (simp add: st Copy_def Size_def)
  then show ?thesis using e w2 o sp l
    by (simp add: st contents_def wf_state_def)
qed

lemma ToSlice_step:
  assumes "wf_state st"
  shows "\<exists>r h'. ToSlice z st = Some (r, (h', snd st))
           \<and> elems h' r = contents st \<and> wf_slice h' r
           \<and> contents (h', snd st) = contents st \<and> wf_state (h', snd st)
           \<and> separate (data (snd st)) r
           \<and> len r = len (data (snd st))
           \<and> modifies None (fst st) h'"
proof -
  obtain h q where st: "st = (h, q)" by (cases st)
  from assms st have w: "wf_slice h (data q)" by (simp add: wf_state_def)
  from fresh_copy[OF w, of z] obtain h1 r where
    m: "make_slice z h (int (len (data q))) = Some (h1, r)"
    and e: "elems (copy h1 r (data q)) r = elems h (data q)"
    and w2: "wf_slice (copy h1 r (data q)) r"
    and f: "modifies None h (copy h1 r (data q))"
    and b: "base r = Some (length h)" and l: "len r = len (data q)"
    by auto
  from modifies_other[OF f w] have o: "wf_slice (copy h1 r (data q)) (data q)"
    "elems (copy h1 r (data q)) (data q) = elems h (data q)"
    using w by (auto simp: wf_slice_def split: option.splits)
  have sp: "separate (data q) r" using w b
    by (auto simp: separate_def wf_slice_def split: option.splits)
  have "ToSlice z st = Some (r, (copy h1 r (data q), q))"
    using m by (simp add: st ToSlice_def Size_def)
  then show ?thesis using e w2 o sp l f
    by (simp add: st contents_def wf_state_def)
qed

lemma Remove_loop_step:
  assumes "wf_state st" "i \<le> len (data (snd st))" "x \<notin> set (take i (contents st))"
  shows "\<exists>b st'. Remove_loop z x (data (snd st)) i st = Some (b, st') \<and> evolves st st' \<and>
           (if x \<in> set (contents st) then b \<and> contents st' = remove1 x (contents st)
            else \<not> b \<and> st' = st)"
  using assms(2,3)
proof (induction "len (data (snd st)) - i" arbitrary: i)
  case 0
  then have "i = len (data (snd st))" by simp
  with 0 assms(1) have "x \<notin> set (contents st)"
    by (simp add: length_contents)
  moreover have "Remove_loop z x (data (snd st)) i st = Some (False, st)"
    using \<open>i = len (data (snd st))\<close> by (subst Remove_loop.simps) simp
  ultimately show ?case using evolves_refl[OF assms(1)] by auto
next
  case (Suc n)
  obtain h q where st: "st = (h, q)" by (cases st)
  let ?xs = "contents st"
  from Suc have i: "i < len (data (snd st))" by simp
  from assms(1) have w: "wf_slice h (data q)" by (simp add: st wf_state_def)
  have lx: "length ?xs = len (data (snd st))" using assms(1) by (rule length_contents)
  have ix: "index (fst st) (data (snd st)) (int i) = Some (?xs ! i)"
    using index_elems[OF w, of "int i"] i by (simp add: st contents_def)
  have split: "?xs = take i ?xs @ ?xs ! i # drop (Suc i) ?xs"
    using i lx by (simp add: id_take_nth_drop)
  show ?case
  proof (cases "?xs ! i = x")
    case True
    from slices_Delete_elems[OF w, of i z] i obtain h' s' where
      d: "slices_Delete z h (data q) (int i) (int i + 1) = Some (h', s')"
      and e: "elems h' s' = take i (elems h (data q)) @ drop (Suc i) (elems h (data q))"
      and w': "wf_slice h' s'" and f: "modifies (base (data q)) h h'"
      and b: "base s' = base (data q)"
      by (auto simp: st)
    have r: "Remove_loop z x (data (snd st)) i st = Some (True, (h', q\<lparr>data := s'\<rparr>))"
      using i ix True d by (subst Remove_loop.simps) (simp add: st)
    have mem: "x \<in> set ?xs" using True i lx by (metis nth_mem)
    have "remove1 x ?xs = take i ?xs @ drop (Suc i) ?xs"
      using Suc.prems(2) True by (subst split) (simp add: remove1_append)
    then have c: "contents (h', q\<lparr>data := s'\<rparr>) = remove1 x ?xs"
      using e by (simp add: contents_def st)
    have ev: "evolves st (h', q\<lparr>data := s'\<rparr>)"
      using w' f b by (simp add: evolves_def wf_state_def st)
    show ?thesis using r mem c ev by auto
  next
    case False
    have n: "n = len (data (snd st)) - Suc i" using Suc.hyps(2) by simp
    have nin: "x \<notin> set (take (Suc i) ?xs)"
      using Suc.prems(2) False i lx by (simp add: take_Suc_conv_app_nth)
    from Suc.hyps(1)[OF n _ nin] i
    obtain b st' where
      r: "Remove_loop z x (data (snd st)) (Suc i) st = Some (b, st')"
      and rest: "evolves st st'"
        "if x \<in> set ?xs then b \<and> contents st' = remove1 x ?xs else \<not> b \<and> st' = st"
      by auto
    have "Remove_loop z x (data (snd st)) i st = Remove_loop z x (data (snd st)) (Suc i) st"
      using i ix False by (subst Remove_loop.simps) simp
    with r rest show ?thesis by auto
  qed
qed

lemma Remove_step:
  assumes "wf_state st"
  shows "\<exists>b st'. Remove z x st = Some (b, st') \<and> evolves st st' \<and>
           (if x \<in> set (contents st) then b \<and> contents st' = remove1 x (contents st)
            else \<not> b \<and> st' = st)"
  using Remove_loop_step[OF assms, of 0 x z] by (simp add: Remove_def)

lemma Reverse_loop_step:
  assumes "wf_state (h, q)" "0 \<le> i" "j < int (len (data q))"
  shows "\<exists>h'. Reverse_loop i j (h, q) = Some (h', q) \<and> wf_state (h', q)
           \<and> modifies (base (data q)) h h'
           \<and> (\<forall>k<len (data q). contents (h', q) ! k =
                 (if i \<le> int k \<and> int k \<le> j then contents (h, q) ! nat (i + j - int k)
                  else contents (h, q) ! k))"
  using assms
proof (induction "nat (j - i)" arbitrary: i j h rule: less_induct)
  case less
  let ?s = "data q"
  let ?xs = "contents (h, q)"
  from less.prems have w: "wf_slice h ?s" by (simp add: wf_state_def)
  show ?case
  proof (cases "i < j")
    case False
    then have "Reverse_loop i j (h, q) = Some (h, q)"
      by (subst Reverse_loop.simps) simp
    moreover from False have "\<forall>k<len ?s. ?xs ! k =
        (if i \<le> int k \<and> int k \<le> j then ?xs ! nat (i + j - int k) else ?xs ! k)"
      by (auto intro: arg_cong[where f = "(!) ?xs"])
    ultimately show ?thesis using less.prems(1) by (simp add: modifies_refl)
  next
    case True
    with less.prems have bi: "0 \<le> i" "i < int (len ?s)" and bj: "0 \<le> j" "j < int (len ?s)"
      by simp_all
    have rj: "index h ?s j = Some (?xs ! nat j)"
      using index_elems[OF w bj] by (simp add: contents_def)
    have ri: "index h ?s i = Some (?xs ! nat i)"
      using index_elems[OF w bi] by (simp add: contents_def)
    from store_elems[OF w bi, of "?xs ! nat j"] obtain h1 where
      s1: "store h ?s i (?xs ! nat j) = Some h1"
      and e1: "elems h1 ?s = ?xs[nat i := ?xs ! nat j]"
      and w1: "wf_slice h1 ?s" and m1: "modifies (base ?s) h h1"
      by (auto simp: contents_def)
    from store_elems[OF w1 bj, of "?xs ! nat i"] obtain h2 where
      s2: "store h1 ?s j (?xs ! nat i) = Some h2"
      and e2: "elems h2 ?s = ?xs[nat i := ?xs ! nat j, nat j := ?xs ! nat i]"
      and w2: "wf_slice h2 ?s" and m2: "modifies (base ?s) h1 h2"
      by (auto simp: e1)
    have dec: "nat (j - 1 - (i + 1)) < nat (j - i)" using True by simp
    from less.hyps[OF dec, of h2] w2 bi bj obtain h' where
      r: "Reverse_loop (i + 1) (j - 1) (h2, q) = Some (h', q)"
      and w': "wf_state (h', q)" and m': "modifies (base ?s) h2 h'"
      and n': "\<forall>k<len ?s. contents (h', q) ! k =
                 (if i + 1 \<le> int k \<and> int k \<le> j - 1
                  then contents (h2, q) ! nat (i + 1 + (j - 1) - int k)
                  else contents (h2, q) ! k)"
      by (auto simp: wf_state_def)
    have run: "Reverse_loop i j (h, q) = Some (h', q)"
      using True rj ri s1 s2 r by (subst Reverse_loop.simps) simp
    have m: "modifies (base ?s) h h'"
      using modifies_trans[OF modifies_trans[OF m1 m2] m'] .
    have lx: "length ?xs = len ?s" using less.prems(1) by (simp add: length_contents)
    have c2: "contents (h2, q) = ?xs[nat i := ?xs ! nat j, nat j := ?xs ! nat i]"
      using e2 by (simp add: contents_def)
    have "contents (h', q) ! k =
            (if i \<le> int k \<and> int k \<le> j then ?xs ! nat (i + j - int k) else ?xs ! k)"
      if k: "k < len ?s" for k
    proof -
      consider "int k = i" | "int k = j" | "i < int k" "int k < j" | "int k < i" | "j < int k"
        by linarith
      then show ?thesis
      proof cases
        case 1
        then have "nat i = k" by simp
        with 1 True k lx bj n'[rule_format, OF k] show ?thesis
          by (simp add: c2 nth_list_update)
      next
        case 2
        then have "nat j = k" by simp
        with 2 True k lx bi n'[rule_format, OF k] show ?thesis
          by (simp add: c2 nth_list_update)
      next
        case 3
        then have a: "nat (i + j - int k) \<noteq> nat i" "nat (i + j - int k) \<noteq> nat j"
          "nat (i + j - int k) < len ?s"
          using bi bj by auto
        from 3 have b: "i + 1 + (j - 1) - int k = i + j - int k" by simp
        from 3 n'[rule_format, OF k] a lx show ?thesis
          by (simp add: c2 b)
      next
        case 4
        then have "k \<noteq> nat i" "k \<noteq> nat j" using True by auto
        with 4 True n'[rule_format, OF k] show ?thesis
          by (simp add: c2)
      next
        case 5
        then have "k \<noteq> nat i" "k \<noteq> nat j" using True bi by auto
        with 5 True n'[rule_format, OF k] show ?thesis
          by (simp add: c2)
      qed
    qed
    with run w' m show ?thesis by simp
  qed
qed

lemma Reverse_step:
  assumes "wf_state st"
  shows "\<exists>st'. Reverse st = Some st' \<and> contents st' = rev (contents st) \<and> evolves st st'
          \<and> snd st' = snd st"
proof -
  obtain h q where st: "st = (h, q)" by (cases st)
  let ?n = "len (data q)"
  from assms have w: "wf_state (h, q)" by (simp add: st)
  from Reverse_loop_step[OF w, of 0 "int ?n - 1"] obtain h' where
    r: "Reverse_loop 0 (int ?n - 1) (h, q) = Some (h', q)"
    and w': "wf_state (h', q)" and m: "modifies (base (data q)) h h'"
    and n: "\<forall>k<?n. contents (h', q) ! k =
                 (if 0 \<le> int k \<and> int k \<le> int ?n - 1
                  then contents (h, q) ! nat (0 + (int ?n - 1) - int k)
                  else contents (h, q) ! k)"
    by auto
  have l: "length (contents (h, q)) = ?n" "length (contents (h', q)) = ?n"
    using w w' by (simp_all add: length_contents)
  have "contents (h', q) = rev (contents (h, q))"
  proof (rule nth_equalityI)
    show "length (contents (h', q)) = length (rev (contents (h, q)))" using l by simp
  next
    fix k assume "k < length (contents (h', q))"
    then have k: "k < ?n" using l by simp
    then have "nat (0 + (int ?n - 1) - int k) = ?n - Suc k" by simp
    with n[rule_format, OF k] k l show "contents (h', q) ! k = rev (contents (h, q)) ! k"
      by (simp add: rev_nth)
  qed
  moreover have "Reverse st = Some (h', q)"
    using r by (simp add: st Reverse_def Size_def)
  moreover have "evolves st (h', q)"
    using w' m by (simp add: st evolves_def)
  ultimately show ?thesis by (simp add: st)
qed


section \<open>Searching, printing, and programs over one and two queues\<close>

lemma slice_other:
  assumes "modifies (base s) h h'"
    "base s' = base s \<or> (case base s' of None \<Rightarrow> False | Some x \<Rightarrow> length h \<le> x)"
    "wf_slice h t" "separate s t"
  shows "wf_slice h' t \<and> elems h' t = elems h t \<and> separate s' t"
proof -
  from assms(4) have "base t \<noteq> base s \<or> base t = None"
    by (auto simp: separate_def)
  from modifies_other[OF assms(1,3) this]
  have 1: "wf_slice h' t \<and> elems h' t = elems h t" .
  from assms(2,3,4) have "separate s' t"
    by (auto simp: separate_def wf_slice_def split: option.splits)
  with 1 show ?thesis by simp
qed

lemma Index_from_ge: "0 \<le> i \<Longrightarrow> (0 \<le> Index_from xs v i) = (v \<in> set xs)"
  by (induction xs arbitrary: i) auto

lemma Contains_iff: "fst (Contains x st) = (x \<in> set (contents st))"
  by (cases st)
     (simp add: Contains_def slices_Contains_def slices_Index_def contents_def Index_from_ge)

lemma printValue_loop_tail:
  "0 < i \<Longrightarrow> i \<le> length xs \<Longrightarrow>
   printValue_loop pv xs i buf = buf @ concat (map (\<lambda>e. '' '' @ pv e) (drop i xs))"
proof (induction "length xs - i" arbitrary: i buf)
  case 0
  then show ?case by (subst printValue_loop.simps) simp
next
  case (Suc n)
  then have i: "i < length xs" by simp
  from Suc have n: "n = length xs - (i + 1)" by simp
  have "printValue_loop pv xs i buf = printValue_loop pv xs (i + 1) (buf @ '' '' @ pv (xs ! i))"
    using i Suc.prems(1) by (subst printValue_loop.simps) simp
  also have "\<dots> = (buf @ '' '' @ pv (xs ! i)) @ concat (map (\<lambda>e. '' '' @ pv e) (drop (i + 1) xs))"
    using Suc.hyps(1)[OF n] i by simp
  also have "\<dots> = buf @ concat (map (\<lambda>e. '' '' @ pv e) (drop i xs))"
    using i by (simp add: Cons_nth_drop_Suc[symmetric])
  finally show ?case .
qed

lemma join_space_Cons:
  "join_space (s # ss) = s @ concat (map (\<lambda>t. '' '' @ t) ss)"
  by (induction ss arbitrary: s) auto

lemma printValue_join:
  "printValue pv xs = ''['' @ join_space (map pv xs) @ '']''"
proof (cases xs)
  case Nil
  then show ?thesis
    by (simp add: printValue_def) (subst printValue_loop.simps, simp)
next
  case (Cons y ys)
  have "printValue_loop pv xs 0 ''['' = printValue_loop pv xs 1 (''['' @ pv y)"
    using Cons by (subst printValue_loop.simps) simp
  also have "\<dots> = (''['' @ pv y) @ concat (map (\<lambda>e. '' '' @ pv e) (drop 1 xs))"
    using Cons by (intro printValue_loop_tail) simp_all
  finally show ?thesis
    using Cons by (simp add: printValue_def join_space_Cons comp_def map_concat)
qed

lemma run_append:
  "run g z (cs @ ds) st =
     (case run g z cs st of
        None \<Rightarrow> None
      | Some (rs, st') \<Rightarrow>
          (case run g z ds st' of
             None \<Rightarrow> None
           | Some (rs', st'') \<Rightarrow> Some (rs @ rs', st'')))"
proof (induction cs arbitrary: st)
  case Nil
  then show ?case by (auto split: option.splits)
next
  case (Cons c cs)
  then show ?case by (cases c) (auto split: option.splits)
qed

lemma wf_evolves: "evolves st st' \<Longrightarrow> wf_state st'"
  by (simp add: evolves_def)

lemma run_enqueues:
  "wf_state st \<Longrightarrow>
   \<exists>st'. run g z (map CallEnqueue vs) st = Some ([], st') \<and> wf_state st'
        \<and> contents st' = contents st @ vs"
proof (induction vs arbitrary: st)
  case Nil
  then show ?case by simp
next
  case (Cons v vs)
  from Enqueue_step[OF Cons.prems, of g z v]
  have c: "contents (Enqueue g z v st) = contents st @ [v]"
    and w: "wf_state (Enqueue g z v st)"
    by (auto dest: wf_evolves)
  from Cons.IH[OF w] c show ?case by simp
qed

lemma run_dequeues:
  "wf_state st \<Longrightarrow> contents st = vs \<Longrightarrow>
   \<exists>st'. run g z (replicate (length vs) CallDequeue) st = Some (map (\<lambda>v. (v, None)) vs, st')
        \<and> wf_state st' \<and> contents st' = []"
proof (induction vs arbitrary: st)
  case Nil
  then show ?case by simp
next
  case (Cons v vs)
  from Cons.prems have "len (data (snd st)) \<noteq> 0"
    using length_contents[of st] by auto
  from Dequeue_step[OF Cons.prems(1) this, of z] Cons.prems(2) obtain st1 where
    d: "Dequeue z st = Some ((v, None), st1)" and c: "contents st1 = vs"
    and w: "wf_state st1"
    by (auto dest: wf_evolves)
  from Cons.IH[OF w c] d show ?case by auto
qed

lemma run_size:
  "wf_state st \<Longrightarrow>
   \<exists>rs st'. run g z cs st = Some (rs, st') \<and> wf_state st'
        \<and> int (len (data (snd st'))) =
            int (len (data (snd st))) + int (enqueues cs) - int (successes rs)"
proof (induction cs arbitrary: st)
  case Nil
  then show ?case by (simp add: enqueues_def successes_def)
next
  case (Cons c cs)
  show ?case
  proof (cases c)
    case (CallEnqueue x)
    from Enqueue_step[OF Cons.prems, of g z x]
    have w: "wf_state (Enqueue g z x st)"
      and "contents (Enqueue g z x st) = contents st @ [x]"
      by (auto dest: wf_evolves)
    then have l: "len (data (snd (Enqueue g z x st))) = len (data (snd st)) + 1"
      using length_contents[OF w] length_contents[OF Cons.prems] by simp
    from Cons.IH[OF w, unfolded l] show ?thesis
      by (auto simp: CallEnqueue enqueues_def)
  next
    case CallDequeue
    show ?thesis
    proof (cases "len (data (snd st)) = 0")
      case True
      from Cons.IH[OF Cons.prems] Dequeue_empty[OF True, of z] show ?thesis
        by (auto simp: CallDequeue enqueues_def successes_def)
    next
      case False
      from Dequeue_step[OF Cons.prems False, of z] obtain st1 where
        d: "Dequeue z st = Some ((hd (contents st), None), st1)"
        and c: "contents st1 = tl (contents st)" and w: "wf_state st1"
        by (auto dest: wf_evolves)
      have l: "int (len (data (snd st1))) = int (len (data (snd st))) - 1"
        using c False length_contents[OF w] length_contents[OF Cons.prems] by simp
      from Cons.IH[OF w, unfolded l] d show ?thesis
        by (auto simp: CallDequeue enqueues_def successes_def)
    qed
  qed
qed

lemma mutate_step:
  assumes "wf_state st"
  shows "\<exists>st'. mutate g z m st = Some st' \<and> evolves st st'"
proof (cases m)
  case (MEnqueue x)
  then show ?thesis using Enqueue_step[OF assms, of g z x] by simp
next
  case MDequeue
  show ?thesis
  proof (cases "len (data (snd st)) = 0")
    case True
    then show ?thesis
      using Dequeue_empty[OF True, of z] evolves_refl[OF assms] by (simp add: MDequeue)
  next
    case False
    then show ?thesis
      using Dequeue_step[OF assms False, of z] by (auto simp: MDequeue)
  qed
next
  case MClear
  then show ?thesis using Clear_step[of z st] by auto
next
  case (MRemove x)
  then show ?thesis using Remove_step[OF assms, of z x] by auto
next
  case MReverse
  then show ?thesis using Reverse_step[OF assms] by auto
qed

text \<open>
  Every queue that the package can build is well formed, and no mutating method panics
  on it: the hypothesis \<open>wf_state\<close> of the theorems below excludes no queue that a
  program can hold.
\<close>

lemma mutate_all_wf:
  "wf_state st \<Longrightarrow> \<exists>st'. mutate_all g z ms st = Some st' \<and> wf_state st'"
proof (induction ms arbitrary: st)
  case Nil
  then show ?case by simp
next
  case (Cons m ms)
  from mutate_step[OF Cons.prems, of g z m] obtain st1 where
    m: "mutate g z m st = Some st1" and w: "wf_state st1"
    by (auto dest: wf_evolves)
  from Cons.IH[OF w] m show ?case by simp
qed

lemma reachable_wf:
  "\<exists>st'. mutate_all g z ms (h, NewQueue) = Some st' \<and> wf_state st'"
  by (rule mutate_all_wf) (simp add: wf_state_def NewQueue_def wf_nil)

lemma mutate_other:
  assumes "wf_state (h, a)" "wf_state (h, b)" "separate (data a) (data b)"
  shows "\<exists>h' a'. mutate g z m (h, a) = Some (h', a') \<and> wf_state (h', a') \<and> wf_state (h', b)
           \<and> contents (h', b) = contents (h, b) \<and> separate (data a') (data b)"
proof -
  from mutate_step[OF assms(1), of g z m] obtain h' a' where
    m: "mutate g z m (h, a) = Some (h', a')" and e: "evolves (h, a) (h', a')"
    by auto
  from evolves_other[OF e assms(2,3)] wf_evolves[OF e] m show ?thesis by simp
qed

lemma run2_inv:
  "wf_state (h, a) \<Longrightarrow> wf_state (h, b) \<Longrightarrow> separate (data a) (data b) \<Longrightarrow>
   \<exists>h' a' b'. run2 g z prog (h, a, b) = Some (h', a', b') \<and> wf_state (h', a')
        \<and> wf_state (h', b') \<and> separate (data a') (data b')"
proof (induction prog arbitrary: h a b)
  case Nil
  then show ?case by simp
next
  case (Cons p prog)
  obtain sd m where p: "p = (sd, m)" by (cases p)
  show ?case
  proof (cases sd)
    case Source
    from mutate_other[OF Cons.prems, of g z m] obtain h' a' where
      m: "mutate g z m (h, a) = Some (h', a')" and w: "wf_state (h', a')" "wf_state (h', b)"
      and s: "separate (data a') (data b)"
      by auto
    from Cons.IH[OF w s] m show ?thesis by (simp add: p Source)
  next
    case Duplicate
    from mutate_other[OF Cons.prems(2,1) separate_sym[OF Cons.prems(3)], of g z m]
    obtain h' b' where
      m: "mutate g z m (h, b) = Some (h', b')" and w: "wf_state (h', a)" "wf_state (h', b')"
      and s: "separate (data b') (data a)"
      by auto
    from Cons.IH[OF w separate_sym[OF s]] m show ?thesis by (simp add: p Duplicate)
  qed
qed

lemma apply_writes_other:
  "wf_slice h r \<Longrightarrow> wf_slice h t \<Longrightarrow> separate r t \<Longrightarrow>
   apply_writes g z ws (h, r) = Some (h2, r2) \<Longrightarrow> elems h2 t = elems h t"
proof (induction ws arbitrary: h r)
  case Nil
  then show ?case by simp
next
  case (Cons w ws)
  show ?case
  proof (cases w)
    case (Assign i v)
    with Cons.prems(4) obtain h1 where s: "store h r i v = Some h1"
      and rest: "apply_writes g z ws (h1, r) = Some (h2, r2)"
      by (auto split: option.splits)
    from s have b: "0 \<le> i" "i < int (len r)"
      by (auto simp: store_def split: option.splits if_splits)
    from store_elems[OF Cons.prems(1) b, of v] s
    have w1: "wf_slice h1 r" and m: "modifies (base r) h h1" by auto
    from slice_other[OF m _ Cons.prems(2,3), of r]
    have o: "wf_slice h1 t" "elems h1 t = elems h t" by simp_all
    from Cons.IH[OF w1 o(1) Cons.prems(3) rest] o(2) show ?thesis by simp
  next
    case (Append v)
    obtain h1 r1 where a: "append_elem g z h r v = (h1, r1)"
      by (cases "append_elem g z h r v")
    with Cons.prems(4) Append have rest: "apply_writes g z ws (h1, r1) = Some (h2, r2)"
      by simp
    from append_elem_elems[OF Cons.prems(1) a]
    have w1: "wf_slice h1 r1" and m: "modifies (base r) h h1"
      and e: "base r1 = base r \<or> (\<exists>a. base r1 = Some a \<and> length h \<le> a)"
      by auto
    from e have e': "base r1 = base r \<or> (case base r1 of None \<Rightarrow> False | Some x \<Rightarrow> length h \<le> x)"
      by auto
    from slice_other[OF m e' Cons.prems(2,3)]
    have o: "wf_slice h1 t" "elems h1 t = elems h t" "separate r1 t" by simp_all
    from Cons.IH[OF w1 o(1) o(3) rest] o(2) show ?thesis by simp
  qed
qed


section \<open>The properties of the specification\<close>

lemma wf_NewQueue: "wf_state (h, NewQueue)"
  by (simp add: wf_state_def NewQueue_def wf_nil)

lemma contents_NewQueue: "contents (h, NewQueue) = []"
  by (simp add: contents_def NewQueue_def elems_nil)

lemma Size_fst: "fst (Size st) = int (len (data (snd st)))"
  by (cases st) (simp add: Size_def)

lemma IsEmpty_fst: "fst (IsEmpty st) = (len (data (snd st)) = 0)"
  by (cases st) (simp add: IsEmpty_def)

subsection \<open>C1: first in, first out\<close>

text \<open>
  Claim C1. Starting from a new queue (in any heap, under any growth policy of the
  runtime), enqueueing \<open>v1 .. vn\<close> and then calling \<^verbatim>\<open>Dequeue\<close> \<open>n\<close> times never
  panics, and the calls return \<open>v1 .. vn\<close> in that order, each with a nil error; the
  queue is empty afterwards.
\<close>

theorem fifo_law:
  "\<exists>st'. run g z (map CallEnqueue vs @ replicate (length vs) CallDequeue) (h, NewQueue)
            = Some (map (\<lambda>v. (v, None)) vs, st')
         \<and> contents st' = []"
proof -
  from run_enqueues[OF wf_NewQueue, of g z vs h] obtain st1 where
    e: "run g z (map CallEnqueue vs) (h, NewQueue) = Some ([], st1)"
    and w: "wf_state st1" and c: "contents st1 = vs"
    by (auto simp: contents_NewQueue)
  from run_dequeues[OF w c, of g z] obtain st2 where
    d: "run g z (replicate (length vs) CallDequeue) st1 = Some (map (\<lambda>v. (v, None)) vs, st2)"
    and c2: "contents st2 = []"
    by auto
  from e d c2 show ?thesis by (simp add: run_append)
qed

theorem fifo_law_witness:
  "map_option fst (run doubling 0
      [CallEnqueue 10, CallEnqueue 20, CallEnqueue 30, CallDequeue, CallDequeue, CallDequeue]
      ([], NewQueue))
   = Some [(10 :: int, None), (20, None), (30, None)]"
  using fifo_law[of doubling 0 "[10, 20, 30]" "[]"] by auto

subsection \<open>C2: the empty-queue error\<close>

text \<open>
  Claim C2. On a queue of size zero, \<^verbatim>\<open>Dequeue\<close>, \<^verbatim>\<open>Front\<close> and \<^verbatim>\<open>PeekLast\<close> each
  return the zero value of the element type together with the error ``empty queue'', and
  the heap and the queue are exactly what they were before the call. On a queue that is
  not empty each of them returns a nil error (with the head, the head and the tail
  element).
\<close>

theorem empty_queue_error:
  assumes "wf_state st"
  shows "(fst (Size st) = 0 \<longrightarrow>
            Dequeue z st = Some ((z, Some (Errorf ''empty queue'')), st)
          \<and> Front z st = Some ((z, Some (Errorf ''empty queue'')), st)
          \<and> PeekLast z st = Some ((z, Some (Errorf ''empty queue'')), st))
       \<and> (fst (Size st) \<noteq> 0 \<longrightarrow>
            (\<exists>st'. Dequeue z st = Some ((hd (contents st), None), st'))
          \<and> Front z st = Some ((hd (contents st), None), st)
          \<and> PeekLast z st = Some ((last (contents st), None), st))"
proof (intro conjI impI)
  assume "fst (Size st) = 0"
  then have e: "len (data (snd st)) = 0" by (simp add: Size_fst)
  show "Dequeue z st = Some ((z, Some (Errorf ''empty queue'')), st)"
    using e by (rule Dequeue_empty)
  show "Front z st = Some ((z, Some (Errorf ''empty queue'')), st)"
    using e by (rule Front_empty)
  show "PeekLast z st = Some ((z, Some (Errorf ''empty queue'')), st)"
    using e by (rule PeekLast_empty)
next
  assume "fst (Size st) \<noteq> 0"
  then have n: "len (data (snd st)) \<noteq> 0" by (simp add: Size_fst)
  show "\<exists>st'. Dequeue z st = Some ((hd (contents st), None), st')"
    using Dequeue_step[OF assms n, of z] by auto
  show "Front z st = Some ((hd (contents st), None), st)"
    using assms n by (rule Front_step)
  show "PeekLast z st = Some ((last (contents st), None), st)"
    using assms n by (rule PeekLast_step)
qed

theorem empty_queue_error_witness:
  "Dequeue (0 :: int) ([], NewQueue) = Some ((0, Some (Errorf ''empty queue'')), ([], NewQueue))
   \<and> Front (0 :: int) ([], NewQueue) = Some ((0, Some (Errorf ''empty queue'')), ([], NewQueue))
   \<and> PeekLast (0 :: int) ([], NewQueue) = Some ((0, Some (Errorf ''empty queue'')), ([], NewQueue))
   \<and> wf_state example \<and> fst (Size example) \<noteq> 0
   \<and> (\<exists>st'. Dequeue 0 example = Some ((10, None), st'))
   \<and> Front 0 example = Some ((10, None), example)
   \<and> PeekLast 0 example = Some ((30, None), example)"
proof -
  have a: "wf_state (([], NewQueue) :: int state)" "fst (Size (([], NewQueue) :: int state)) = 0"
    by code_simp+
  have b: "wf_state example" "fst (Size example) \<noteq> 0"
    "hd (contents example) = 10" "last (contents example) = 30"
    by code_simp+
  from empty_queue_error[OF a(1), of 0] a(2) empty_queue_error[OF b(1), of 0] b
  show ?thesis by simp
qed

subsection \<open>C3: removing the first occurrence\<close>

lemma remove1_split:
  assumes "x \<in> set xs"
  shows "\<exists>ys zs. xs = ys @ x # zs \<and> x \<notin> set ys \<and> remove1 x xs = ys @ zs"
proof -
  from split_list_first[OF assms] obtain ys zs where "xs = ys @ x # zs" "x \<notin> set ys"
    by auto
  then show ?thesis by (auto simp: remove1_append)
qed

text \<open>
  Claim C3. \<^verbatim>\<open>Contains(x)\<close> tells whether some element equals \<open>x\<close>. When one does,
  \<^verbatim>\<open>Remove(x)\<close> returns true and the new element sequence is the old one without the
  first \<open>x\<close> from the head: everything before it and everything behind it stays, in
  order. When none does, \<^verbatim>\<open>Remove(x)\<close> returns false and the heap and the queue are
  what they were. When \<open>x\<close> occurs exactly once, \<^verbatim>\<open>Contains(x)\<close> is false after the
  removal.
\<close>

theorem Remove_first_occurrence:
  assumes "wf_state st"
  shows "fst (Contains x st) = (x \<in> set (contents st))
       \<and> (x \<in> set (contents st) \<longrightarrow>
            (\<exists>st' ys zs. Remove z x st = Some (True, st') \<and> contents st = ys @ x # zs
                \<and> x \<notin> set ys \<and> contents st' = ys @ zs))
       \<and> (x \<notin> set (contents st) \<longrightarrow> Remove z x st = Some (False, st))
       \<and> (count_list (contents st) x = 1 \<longrightarrow>
            (\<exists>st'. Remove z x st = Some (True, st') \<and> \<not> fst (Contains x st')))"
proof -
  from Remove_step[OF assms, of z x] obtain b st' where
    r: "Remove z x st = Some (b, st')"
    and y: "x \<in> set (contents st) \<Longrightarrow> b \<and> contents st' = remove1 x (contents st)"
    and n: "x \<notin> set (contents st) \<Longrightarrow> \<not> b \<and> st' = st"
    by (auto split: if_splits)
  have 1: "\<exists>st' ys zs. Remove z x st = Some (True, st') \<and> contents st = ys @ x # zs
                \<and> x \<notin> set ys \<and> contents st' = ys @ zs"
    if m: "x \<in> set (contents st)"
  proof -
    from remove1_split[OF m] obtain ys zs where
      "contents st = ys @ x # zs" "x \<notin> set ys" "remove1 x (contents st) = ys @ zs"
      by auto
    with r y[OF m] show ?thesis by auto
  qed
  have 2: "Remove z x st = Some (False, st)" if "x \<notin> set (contents st)"
    using r n[OF that] by simp
  have 3: "\<exists>st'. Remove z x st = Some (True, st') \<and> \<not> fst (Contains x st')"
    if c: "count_list (contents st) x = 1"
  proof -
    from c have m: "x \<in> set (contents st)"
      using count_list_0_iff[of "contents st" x] by auto
    from 1[OF m] obtain st1 ys zs where
      r1: "Remove z x st = Some (True, st1)" and s: "contents st = ys @ x # zs"
      and ny: "x \<notin> set ys" and c1: "contents st1 = ys @ zs"
      by auto
    from c s ny have "count_list zs x = 0" by simp
    then have "x \<notin> set zs" by (simp add: count_list_0_iff)
    with ny c1 have "\<not> fst (Contains x st1)" by (simp add: Contains_iff)
    with r1 show ?thesis by auto
  qed
  from 1 2 3 show ?thesis by (simp add: Contains_iff)
qed

theorem Remove_first_occurrence_witness:
  "wf_state example
   \<and> fst (Contains 20 example) \<and> count_list (contents example) 20 = 1
   \<and> (\<exists>st'. Remove 0 20 example = Some (True, st') \<and> contents st' = [10, 30]
          \<and> \<not> fst (Contains 20 st'))
   \<and> \<not> fst (Contains 25 example) \<and> Remove 0 25 example = Some (False, example)"
proof -
  have w: "wf_state example" by code_simp
  have c: "contents example = [10, 20, 30]" by code_simp
  from Remove_first_occurrence[OF w, of 20 0] c obtain st' ys zs where
    r: "Remove 0 20 example = Some (True, st')" and s: "[10, 20, 30] = ys @ 20 # zs"
    and ny: "20 \<notin> set ys" and c': "contents st' = ys @ zs"
    by auto
  from s ny have "ys = [10] \<and> zs = [30]"
    by (cases ys; cases "tl ys") auto
  with c' have c2: "contents st' = [10, 30]" by simp
  from Remove_first_occurrence[OF w, of 20 0] c r have nc: "\<not> fst (Contains 20 st')"
    by auto
  from Remove_first_occurrence[OF w, of 25 0] c
  have "\<not> fst (Contains 25 example)" "Remove 0 25 example = Some (False, example)"
    by auto
  with w c r c2 nc Remove_first_occurrence[OF w, of 20 0] show ?thesis by auto
qed

subsection \<open>C4: the size\<close>

text \<open>
  Claim C4. After any interleaving of \<^verbatim>\<open>Enqueue\<close> and \<^verbatim>\<open>Dequeue\<close> calls on a new
  queue, with \<open>k\<close> calls of \<^verbatim>\<open>Enqueue\<close> and \<open>j\<close> calls of \<^verbatim>\<open>Dequeue\<close> that returned
  a nil error, no call has panicked and \<^verbatim>\<open>Size()\<close> is \<open>k - j\<close>. For every queue,
  \<^verbatim>\<open>IsEmpty()\<close> holds exactly when \<^verbatim>\<open>Size()\<close> is zero, and \<^verbatim>\<open>Size()\<close> is not
  negative.
\<close>

theorem Size_counts:
  "(\<exists>rs st'. run g z cs (h, NewQueue) = Some (rs, st')
        \<and> fst (Size st') = int (enqueues cs) - int (successes rs))
   \<and> fst (IsEmpty st) = (fst (Size st) = 0)
   \<and> 0 \<le> fst (Size st)"
proof -
  from run_size[OF wf_NewQueue, of g z cs h]
  have "\<exists>rs st'. run g z cs (h, NewQueue) = Some (rs, st')
        \<and> fst (Size st') = int (enqueues cs) - int (successes rs)"
    by (auto simp: Size_fst NewQueue_def nil_slice_def)
  then show ?thesis by (simp add: Size_fst IsEmpty_fst)
qed

theorem Size_counts_witness:
  "\<exists>st'. run doubling (0 :: int) [CallDequeue, CallEnqueue 1, CallEnqueue 2, CallDequeue]
            ([], NewQueue)
          = Some ([(0, Some (Errorf ''empty queue'')), (1, None)], st')
        \<and> fst (Size st') = 2 - 1"
proof -
  let ?cs = "[CallDequeue, CallEnqueue 1, CallEnqueue 2, CallDequeue] :: int call list"
  have rs: "map_option fst (run doubling 0 ?cs ([], NewQueue))
      = Some [(0, Some (Errorf ''empty queue'')), (1, None)]"
    by code_simp
  have k: "enqueues ?cs = 2"
    and j: "successes [(0 :: int, Some (Errorf ''empty queue'')), (1, None)] = 1"
    by code_simp+
  from Size_counts[of doubling 0 ?cs "[]" "([], NewQueue)"] obtain rs' st' where
    r: "run doubling 0 ?cs ([], NewQueue) = Some (rs', st')"
    and sz: "fst (Size st') = int (enqueues ?cs) - int (successes rs')"
    by blast
  from r rs have "rs' = [(0, Some (Errorf ''empty queue'')), (1, None)]"
    by (simp del: run.simps)
  with r sz k j show ?thesis by (simp del: run.simps)
qed

subsection \<open>C5: reversing\<close>

text \<open>
  Claim C5. \<^verbatim>\<open>Reverse\<close> never panics. One call turns the element sequence around, and a
  second call restores it. Seen by a caller: take \<^verbatim>\<open>ToSlice()\<close>, call \<^verbatim>\<open>Reverse()\<close>,
  take \<^verbatim>\<open>ToSlice()\<close> again, and then compare the two slices as they are at that moment;
  the first still holds the element sequence from before the call and the second holds
  its reverse. On a queue of at most one element the call changes nothing, in the heap
  or in the queue.
\<close>

theorem Reverse_involution:
  assumes "wf_state st"
  shows "(\<exists>st1 st2. Reverse st = Some st1 \<and> contents st1 = rev (contents st)
            \<and> Reverse st1 = Some st2 \<and> contents st2 = contents st)
       \<and> (\<exists>r0 s0 s1 r1 s2. ToSlice z st = Some (r0, s0) \<and> Reverse s0 = Some s1
            \<and> ToSlice z s1 = Some (r1, s2)
            \<and> elems (fst s2) r0 = contents st
            \<and> elems (fst s2) r1 = rev (elems (fst s2) r0))
       \<and> (fst (Size st) \<le> 1 \<longrightarrow> Reverse st = Some st)"
proof (intro conjI impI)
  from Reverse_step[OF assms] obtain st1 where
    r1: "Reverse st = Some st1" and c1: "contents st1 = rev (contents st)"
    and w1: "wf_state st1"
    by (auto dest: wf_evolves)
  from Reverse_step[OF w1] obtain st2 where
    r2: "Reverse st1 = Some st2" and c2: "contents st2 = rev (contents st1)"
    by auto
  from c1 c2 have "contents st2 = contents st" by simp
  with r1 c1 r2
  show "\<exists>st1 st2. Reverse st = Some st1 \<and> contents st1 = rev (contents st)
            \<and> Reverse st1 = Some st2 \<and> contents st2 = contents st"
    by blast
next
  from ToSlice_step[OF assms, of z] obtain r0 h0 where
    t0: "ToSlice z st = Some (r0, (h0, snd st))" and e0: "elems h0 r0 = contents st"
    and wr0: "wf_slice h0 r0" and sp0: "separate (data (snd st)) r0"
    and c0: "contents (h0, snd st) = contents st" and w0: "wf_state (h0, snd st)"
    by auto
  from Reverse_step[OF w0] obtain s1 where
    r: "Reverse (h0, snd st) = Some s1" and c1: "contents s1 = rev (contents (h0, snd st))"
    and ev: "evolves (h0, snd st) s1"
    by auto
  from ev have w1: "wf_state s1" by (rule wf_evolves)
  from ev have m1: "modifies (base (data (snd st))) h0 (fst s1)"
    by (simp add: evolves_def)
  from sp0 have "base r0 \<noteq> base (data (snd st)) \<or> base r0 = None"
    by (auto simp: separate_def)
  from modifies_other[OF m1 wr0 this]
  have wr1: "wf_slice (fst s1) r0" and k1: "elems (fst s1) r0 = elems h0 r0"
    by simp_all
  from ToSlice_step[OF w1, of z] obtain r1 h1 where
    t1: "ToSlice z s1 = Some (r1, (h1, snd s1))" and e1: "elems h1 r1 = contents s1"
    and m2: "modifies None (fst s1) h1"
    by auto
  have "base r0 \<noteq> None \<or> base r0 = None" by blast
  from modifies_other[OF m2 wr1 this] have k2: "elems h1 r0 = elems (fst s1) r0"
    by simp
  from k2 k1 e0 have before: "elems (fst (h1, snd s1)) r0 = contents st" by simp
  from e1 c1 c0 before
  have after: "elems (fst (h1, snd s1)) r1 = rev (elems (fst (h1, snd s1)) r0)" by simp
  from t0 r t1 before after
  show "\<exists>r0 s0 s1 r1 s2. ToSlice z st = Some (r0, s0) \<and> Reverse s0 = Some s1
            \<and> ToSlice z s1 = Some (r1, s2)
            \<and> elems (fst s2) r0 = contents st
            \<and> elems (fst s2) r1 = rev (elems (fst s2) r0)"
    by blast
next
  assume "fst (Size st) \<le> 1"
  then have "\<not> 0 < int (len (data (snd st))) - 1" by (simp add: Size_fst)
  then show "Reverse st = Some st"
    by (cases st) (simp add: Reverse_def Size_def Reverse_loop.simps)
qed

theorem Reverse_involution_witness:
  "wf_state example
   \<and> (\<exists>st1 st2. Reverse example = Some st1 \<and> contents st1 = [30, 20, 10]
         \<and> Reverse st1 = Some st2 \<and> contents st2 = [10, 20, 30])
   \<and> (\<exists>r0 s0 s1 r1 s2. ToSlice 0 example = Some (r0, s0) \<and> Reverse s0 = Some s1
         \<and> ToSlice 0 s1 = Some (r1, s2)
         \<and> elems (fst s2) r0 = [10, 20, 30] \<and> elems (fst s2) r1 = [30, 20, 10])
   \<and> fst (Size (([], NewQueue) :: int state)) \<le> 1
   \<and> Reverse (([], NewQueue) :: int state) = Some ([], NewQueue)"
proof -
  have w: "wf_state example" by code_simp
  have c: "contents example = [10, 20, 30]" by code_simp
  have w0: "wf_state (([], NewQueue) :: int state)"
    and s0: "fst (Size (([], NewQueue) :: int state)) \<le> 1"
    by code_simp+
  note t = Reverse_involution[OF w, of 0]
  from t c have a: "\<exists>st1 st2. Reverse example = Some st1 \<and> contents st1 = [30, 20, 10]
         \<and> Reverse st1 = Some st2 \<and> contents st2 = [10, 20, 30]"
    by simp
  from t obtain r0 s0' s1 r1 s2 where
    "ToSlice 0 example = Some (r0, s0')" "Reverse s0' = Some s1"
    "ToSlice 0 s1 = Some (r1, s2)" "elems (fst s2) r0 = contents example"
    "elems (fst s2) r1 = rev (elems (fst s2) r0)"
    by blast
  with c have b: "\<exists>r0 s0 s1 r1 s2. ToSlice 0 example = Some (r0, s0) \<and> Reverse s0 = Some s1
         \<and> ToSlice 0 s1 = Some (r1, s2)
         \<and> elems (fst s2) r0 = [10, 20, 30] \<and> elems (fst s2) r1 = [30, 20, 10]"
    by (intro exI[of _ r0] exI[of _ s0'] exI[of _ s1] exI[of _ r1] exI[of _ s2]) simp
  from Reverse_involution[OF w0, of 0] s0
  have d: "Reverse (([], NewQueue) :: int state) = Some ([], NewQueue)" by simp
  from w a b s0 d show ?thesis by (intro conjI)
qed


subsection \<open>C6: copies are independent\<close>

text \<open>
  Claim C6. \<^verbatim>\<open>Copy()\<close> never panics and returns a queue with the size and the element
  sequence of the source, which keeps its own. From then on the two queues are
  independent: after any program of \<^verbatim>\<open>Enqueue\<close>, \<^verbatim>\<open>Dequeue\<close>, \<^verbatim>\<open>Clear\<close>, \<^verbatim>\<open>Remove\<close>
  and \<^verbatim>\<open>Reverse\<close> calls on the one and the other, in any interleaving, each further
  such call on either queue completes and leaves the size and the element sequence of
  the other queue as they were.
\<close>

theorem Copy_independent:
  assumes "wf_state st"
  shows "\<exists>c h1. Copy z st = Some (c, (h1, snd st))
           \<and> contents (h1, c) = contents st \<and> fst (Size (h1, c)) = fst (Size st)
           \<and> contents (h1, snd st) = contents st
           \<and> (\<forall>prog. \<exists>h2 a b. run2 g z prog (h1, snd st, c) = Some (h2, a, b)
                \<and> (\<forall>m. \<exists>h3 a'. mutate g z m (h2, a) = Some (h3, a')
                       \<and> contents (h3, b) = contents (h2, b)
                       \<and> fst (Size (h3, b)) = fst (Size (h2, b)))
                \<and> (\<forall>m. \<exists>h3 b'. mutate g z m (h2, b) = Some (h3, b')
                       \<and> contents (h3, a) = contents (h2, a)
                       \<and> fst (Size (h3, a)) = fst (Size (h2, a))))"
proof -
  from Copy_step[OF assms, of z] obtain c h1 where
    cp: "Copy z st = Some (c, (h1, snd st))"
    and cc: "contents (h1, c) = contents st" and wc: "wf_state (h1, c)"
    and cs: "contents (h1, snd st) = contents st" and ws: "wf_state (h1, snd st)"
    and sp: "separate (data (snd st)) (data c)" and l: "len (data c) = len (data (snd st))"
    by auto
  have "\<exists>h2 a b. run2 g z prog (h1, snd st, c) = Some (h2, a, b)
          \<and> (\<forall>m. \<exists>h3 a'. mutate g z m (h2, a) = Some (h3, a')
                 \<and> contents (h3, b) = contents (h2, b)
                 \<and> fst (Size (h3, b)) = fst (Size (h2, b)))
          \<and> (\<forall>m. \<exists>h3 b'. mutate g z m (h2, b) = Some (h3, b')
                 \<and> contents (h3, a) = contents (h2, a)
                 \<and> fst (Size (h3, a)) = fst (Size (h2, a)))" for prog
  proof -
    from run2_inv[OF ws wc sp, of g z prog] obtain h2 a b where
      r: "run2 g z prog (h1, snd st, c) = Some (h2, a, b)"
      and wa: "wf_state (h2, a)" and wb: "wf_state (h2, b)"
      and s: "separate (data a) (data b)"
      by auto
    have 1: "\<exists>h3 a'. mutate g z m (h2, a) = Some (h3, a')
                 \<and> contents (h3, b) = contents (h2, b)
                 \<and> fst (Size (h3, b)) = fst (Size (h2, b))" for m
      using mutate_other[OF wa wb s, of g z m] by (auto simp: Size_fst)
    have 2: "\<exists>h3 b'. mutate g z m (h2, b) = Some (h3, b')
                 \<and> contents (h3, a) = contents (h2, a)
                 \<and> fst (Size (h3, a)) = fst (Size (h2, a))" for m
      using mutate_other[OF wb wa separate_sym[OF s], of g z m] by (auto simp: Size_fst)
    from r 1 2 show ?thesis by blast
  qed
  with cp cc cs l show ?thesis by (simp add: Size_fst)
qed

theorem Copy_independent_witness:
  "wf_state example
   \<and> (\<exists>c h1. Copy 0 example = Some (c, (h1, snd example))
         \<and> contents (h1, c) = [10, 20, 30]
         \<and> (\<exists>h2 a b. run2 doubling 0
                 [(Duplicate, MEnqueue 7), (Source, MReverse), (Duplicate, MRemove 10)]
                 (h1, snd example, c) = Some (h2, a, b)
              \<and> (\<exists>h3 a'. mutate doubling 0 MClear (h2, a) = Some (h3, a')
                    \<and> contents (h3, b) = contents (h2, b))
              \<and> (\<exists>h3 b'. mutate doubling 0 MDequeue (h2, b) = Some (h3, b')
                    \<and> contents (h3, a) = contents (h2, a))))"
proof -
  have w: "wf_state example" by code_simp
  have c: "contents example = [10, 20, 30]" by code_simp
  from Copy_independent[OF w, of 0 doubling] obtain cq h1 where
    cp: "Copy 0 example = Some (cq, (h1, snd example))"
    and cc: "contents (h1, cq) = contents example"
    and ind: "\<forall>prog. \<exists>h2 a b. run2 doubling 0 prog (h1, snd example, cq) = Some (h2, a, b)
                \<and> (\<forall>m. \<exists>h3 a'. mutate doubling 0 m (h2, a) = Some (h3, a')
                       \<and> contents (h3, b) = contents (h2, b)
                       \<and> fst (Size (h3, b)) = fst (Size (h2, b)))
                \<and> (\<forall>m. \<exists>h3 b'. mutate doubling 0 m (h2, b) = Some (h3, b')
                       \<and> contents (h3, a) = contents (h2, a)
                       \<and> fst (Size (h3, a)) = fst (Size (h2, a)))"
    by blast
  let ?prog = "[(Duplicate, MEnqueue 7), (Source, MReverse), (Duplicate, MRemove 10)]"
  from ind[rule_format, of ?prog] obtain h2 a b where
    r: "run2 doubling 0 ?prog (h1, snd example, cq) = Some (h2, a, b)"
    and 1: "\<forall>m. \<exists>h3 a'. mutate doubling 0 m (h2, a) = Some (h3, a')
                       \<and> contents (h3, b) = contents (h2, b)
                       \<and> fst (Size (h3, b)) = fst (Size (h2, b))"
    and 2: "\<forall>m. \<exists>h3 b'. mutate doubling 0 m (h2, b) = Some (h3, b')
                       \<and> contents (h3, a) = contents (h2, a)
                       \<and> fst (Size (h3, a)) = fst (Size (h2, a))"
    by blast
  from 1[rule_format, of MClear] have m1: "\<exists>h3 a'. mutate doubling 0 MClear (h2, a) = Some (h3, a')
                    \<and> contents (h3, b) = contents (h2, b)" by blast
  from 2[rule_format, of MDequeue] have m2: "\<exists>h3 b'. mutate doubling 0 MDequeue (h2, b) = Some (h3, b')
                    \<and> contents (h3, a) = contents (h2, a)" by blast
  from w cp cc c r m1 m2 show ?thesis by (simp del: run2.simps mutate.simps)
qed

subsection \<open>C7: the slice returned by ToSlice\<close>

text \<open>
  Claim C7. \<^verbatim>\<open>ToSlice()\<close> never panics; the slice it returns has as many elements as
  \<^verbatim>\<open>Size()\<close> says, and they are the elements of the queue from head to tail. The slice
  has an array of its own: whatever sequence of element assignments and appends the
  caller makes through it, the element sequence of the queue stays what it was.
\<close>

theorem ToSlice_independent:
  assumes "wf_state st"
  shows "\<exists>r h1. ToSlice z st = Some (r, (h1, snd st))
           \<and> int (len r) = fst (Size st) \<and> int (length (elems h1 r)) = fst (Size st)
           \<and> elems h1 r = contents st
           \<and> (\<forall>ws h2 r2. apply_writes g z ws (h1, r) = Some (h2, r2)
                  \<longrightarrow> contents (h2, snd st) = contents st)"
proof -
  from ToSlice_step[OF assms, of z] obtain r h1 where
    t: "ToSlice z st = Some (r, (h1, snd st))"
    and e: "elems h1 r = contents st" and wr: "wf_slice h1 r"
    and c: "contents (h1, snd st) = contents st" and wq: "wf_state (h1, snd st)"
    and sp: "separate (data (snd st)) r" and l: "len r = len (data (snd st))"
    by auto
  have "contents (h2, snd st) = contents st"
    if a: "apply_writes g z ws (h1, r) = Some (h2, r2)" for ws h2 r2
  proof -
    from wq have "wf_slice h1 (data (snd st))" by (simp add: wf_state_def)
    from apply_writes_other[OF wr this separate_sym[OF sp] a] c
    show ?thesis by (simp add: contents_def)
  qed
  then have i: "\<forall>ws h2 r2. apply_writes g z ws (h1, r) = Some (h2, r2)
                  \<longrightarrow> contents (h2, snd st) = contents st"
    by blast
  have s: "int (len r) = fst (Size st)" "int (length (elems h1 r)) = fst (Size st)"
    using l length_elems[OF wr] by (simp_all add: Size_fst)
  from t s e i show ?thesis by blast
qed

theorem ToSlice_independent_witness:
  "wf_state example
   \<and> (\<exists>r h1 h2 r2. ToSlice 0 example = Some (r, (h1, snd example))
         \<and> elems h1 r = [10, 20, 30]
         \<and> apply_writes doubling 0 [Assign 0 99, Append 5, Assign 3 7] (h1, r) = Some (h2, r2)
         \<and> elems h2 r2 = [99, 20, 30, 7]
         \<and> contents (h2, snd example) = [10, 20, 30])"
proof -
  have w: "wf_state example" by code_simp
  have c: "contents example = [10, 20, 30]" by code_simp
  let ?r = "\<lparr>base = Some 3, off = 0, len = 3, cap = 3\<rparr>"
  let ?h1 = "[[10], [10, 20], [10, 20, 30, 0], [10, 20, 30 :: int]]"
  let ?h2 = "[[10], [10, 20], [10, 20, 30, 0], [99, 20, 30], [99, 20, 30, 7, 0, 0 :: int]]"
  let ?r2 = "\<lparr>base = Some 4, off = 0, len = 4, cap = 6\<rparr>"
  have t: "ToSlice 0 example = Some (?r, (?h1, snd example))" by code_simp
  have a: "apply_writes doubling 0 [Assign 0 99, Append 5, Assign 3 7] (?h1, ?r) = Some (?h2, ?r2)"
    by code_simp
  have e: "elems ?h1 ?r = [10, 20, 30]" "elems ?h2 ?r2 = [99, 20, 30, 7]"
    by code_simp+
  from ToSlice_independent[OF w, of 0 doubling] t a c
  have "contents (?h2, snd example) = [10, 20, 30]"
    by (auto simp del: apply_writes.simps)
  with w t a e show ?thesis by blast
qed

subsection \<open>C8: a cleared queue reads like a new one\<close>

lemma printValue_Nil: "printValue pv [] = ''[]''"
  by (simp add: printValue_join)

lemma observe_empty:
  assumes "wf_state st" "len (data (snd st)) = 0"
  shows "observe pv z rd st =
     (case rd of
        ReadDequeue \<Rightarrow> Returned z (Some (Errorf ''empty queue''))
      | ReadFront \<Rightarrow> Returned z (Some (Errorf ''empty queue''))
      | ReadPeekLast \<Rightarrow> Returned z (Some (Errorf ''empty queue''))
      | ReadIsEmpty \<Rightarrow> Truth True
      | ReadSize \<Rightarrow> Number 0
      | ReadContains x \<Rightarrow> Truth False
      | ReadToSlice \<Rightarrow> Elements []
      | ReadString \<Rightarrow> Text ''Queue: []'')"
proof -
  have c: "contents st = []" using assms(2) by (rule contents_len0)
  show ?thesis
  proof (cases rd)
    case ReadToSlice
    from ToSlice_step[OF assms(1), of z] c show ?thesis
      by (auto simp: ReadToSlice)
  next
    case ReadString
    with c show ?thesis
      by (cases st) (simp add: String_def printValue_Nil contents_def)
  qed (simp_all add: Dequeue_empty[OF assms(2)] Front_empty[OF assms(2)]
        PeekLast_empty[OF assms(2)] IsEmpty_fst Size_fst Contains_iff assms(2) c)
qed

text \<open>
  Claim C8. \<^verbatim>\<open>Clear()\<close> never panics, whatever state the queue is in, and after it
  every reading method (\<^verbatim>\<open>Dequeue\<close>, \<^verbatim>\<open>Front\<close>, \<^verbatim>\<open>PeekLast\<close>, \<^verbatim>\<open>IsEmpty\<close>,
  \<^verbatim>\<open>Size\<close>, \<^verbatim>\<open>Contains\<close>, \<^verbatim>\<open>ToSlice\<close>, \<^verbatim>\<open>String\<close>) returns what it returns on a
  queue that \<^verbatim>\<open>NewQueue\<close> has just made. \<^verbatim>\<open>Dequeue\<close>, \<^verbatim>\<open>Front\<close> and \<^verbatim>\<open>PeekLast\<close> return
  the error ``empty queue'' and leave the cleared state as it is, so they keep failing
  until an element is enqueued.
\<close>

theorem Clear_reads_like_new:
  "\<exists>st'. Clear z st = Some st'
      \<and> observe pv z rd st' = observe pv z rd (h0, NewQueue)
      \<and> Dequeue z st' = Some ((z, Some (Errorf ''empty queue'')), st')
      \<and> Front z st' = Some ((z, Some (Errorf ''empty queue'')), st')
      \<and> PeekLast z st' = Some ((z, Some (Errorf ''empty queue'')), st')"
proof -
  from Clear_step[of z st] obtain st' where
    c: "Clear z st = Some st'" and w: "wf_state st'" and l: "len (data (snd st')) = 0"
    by (auto dest: wf_evolves)
  have l0: "len (data (snd (h0, NewQueue))) = 0"
    by (simp add: NewQueue_def nil_slice_def)
  have "observe pv z rd st' = observe pv z rd (h0, NewQueue)"
    by (simp only: observe_empty[OF w l] observe_empty[OF wf_NewQueue l0])
  with c l show ?thesis
    by (simp add: Dequeue_empty Front_empty PeekLast_empty)
qed

theorem Clear_reads_like_new_witness:
  "\<exists>st'. Clear 0 example = Some st'
      \<and> observe fmt_int 0 ReadString st' = Text ''Queue: []''
      \<and> observe fmt_int 0 ReadString ([], NewQueue) = Text ''Queue: []''
      \<and> Dequeue 0 st' = Some ((0, Some (Errorf ''empty queue'')), st')"
proof -
  have n: "observe fmt_int 0 ReadString ([], NewQueue) = Text ''Queue: []''"
    by code_simp
  from Clear_reads_like_new[of 0 example fmt_int ReadString "[]"] n
  show ?thesis by auto
qed

subsection \<open>C9: the string form\<close>

lemma fmt_int_digits: "fmt_int 1 = ''1''" "fmt_int 2 = ''2''"
  by code_simp+

text \<open>
  Claim C9. \<^verbatim>\<open>String()\<close> is the text \<open>Queue: [\<close>, the printed elements from head to
  tail separated by single spaces, and \<open>]\<close>; for an empty queue it is \<open>Queue: []\<close>; and
  after \<^verbatim>\<open>Enqueue(1)\<close>, \<^verbatim>\<open>Enqueue(2)\<close> on a new queue of integers it is
  \<open>Queue: [1 2]\<close>.
\<close>

theorem String_format:
  "fst (String pv st) = ''Queue: ['' @ join_space (map pv (contents st)) @ '']''
   \<and> (fst (IsEmpty st) \<longrightarrow> fst (String pv st) = ''Queue: []'')
   \<and> fst (String fmt_int (Enqueue g z 2 (Enqueue g z 1 (h, NewQueue)))) = ''Queue: [1 2]''"
proof -
  have f: "fst (String pv st) = ''Queue: ['' @ join_space (map pv (contents st)) @ '']''"
    for pv :: "'b \<Rightarrow> string" and st
    by (cases st) (simp add: String_def contents_def printValue_join)
  have e: "fst (String pv st) = ''Queue: []''" if "fst (IsEmpty st)"
  proof -
    from that have "contents st = []" by (simp add: IsEmpty_fst contents_len0)
    then show ?thesis by (simp add: f)
  qed
  let ?s1 = "Enqueue g z 1 (h, NewQueue)"
  from Enqueue_step[OF wf_NewQueue, of g z 1 h]
  have c1: "contents ?s1 = [1]" and w1: "wf_state ?s1"
    by (auto simp: contents_NewQueue dest: wf_evolves)
  from Enqueue_step[OF w1, of g z 2] c1
  have "contents (Enqueue g z 2 ?s1) = [1, 2]" by simp
  then have "fst (String fmt_int (Enqueue g z 2 ?s1)) = ''Queue: [1 2]''"
    by (simp add: f fmt_int_digits)
  with f e show ?thesis by blast
qed

theorem String_format_witness:
  "fst (String fmt_int example) = ''Queue: [10 20 30]''
   \<and> fst (IsEmpty (([], NewQueue) :: int state))
   \<and> fst (String fmt_int ([], NewQueue)) = ''Queue: []''"
proof -
  have e: "fst (IsEmpty (([], NewQueue) :: int state))" by code_simp
  have j: "''Queue: ['' @ join_space (map fmt_int (contents example)) @ '']''
           = ''Queue: [10 20 30]''"
    by code_simp
  note s1 = String_format[where pv = fmt_int and st = example
      and g = doubling and z = 0 and h = "[]"]
  note s2 = String_format[where pv = fmt_int and st = "([], NewQueue)"
      and g = doubling and z = 0 and h = "[]"]
  have a: "fst (String fmt_int example) = ''Queue: [10 20 30]''"
    using s1[THEN conjunct1] j by (simp only:)
  have b: "fst (String fmt_int ([], NewQueue)) = ''Queue: []''"
    using s2[THEN conjunct2, THEN conjunct1] e by (rule mp)
  from a e b show ?thesis by (intro conjI)
qed

subsection \<open>C10: the observers leave the queue alone\<close>

text \<open>
  Claim C10. \<^verbatim>\<open>Contains(x)\<close>, \<^verbatim>\<open>String()\<close>, \<^verbatim>\<open>Size()\<close> and \<^verbatim>\<open>IsEmpty()\<close> return the
  state they were called in, heap and queue. \<^verbatim>\<open>ToSlice()\<close> and \<^verbatim>\<open>Copy()\<close> allocate, so
  the heap grows, but the queue's header is the same and so is its element sequence.
\<close>

theorem observers_keep_contents:
  assumes "wf_state st"
  shows "snd (Contains x st) = st \<and> snd (String pv st) = st
       \<and> snd (Size st) = st \<and> snd (IsEmpty st) = st
       \<and> (\<exists>r st'. ToSlice z st = Some (r, st') \<and> snd st' = snd st
              \<and> contents st' = contents st)
       \<and> (\<exists>c st'. Copy z st = Some (c, st') \<and> snd st' = snd st
              \<and> contents st' = contents st)"
proof -
  have 1: "snd (Contains x st) = st \<and> snd (String pv st) = st
       \<and> snd (Size st) = st \<and> snd (IsEmpty st) = st"
    by (cases st) (simp add: Contains_def String_def Size_def IsEmpty_def)
  from ToSlice_step[OF assms, of z] obtain r h1 where
    "ToSlice z st = Some (r, (h1, snd st))" "contents (h1, snd st) = contents st"
    by auto
  then have 2: "\<exists>r st'. ToSlice z st = Some (r, st') \<and> snd st' = snd st
              \<and> contents st' = contents st"
    by (intro exI[of _ r] exI[of _ "(h1, snd st)"]) simp
  from Copy_step[OF assms, of z] obtain c h2 where
    "Copy z st = Some (c, (h2, snd st))" "contents (h2, snd st) = contents st"
    by auto
  then have 3: "\<exists>c st'. Copy z st = Some (c, st') \<and> snd st' = snd st
              \<and> contents st' = contents st"
    by (intro exI[of _ c] exI[of _ "(h2, snd st)"]) simp
  from 1 2 3 show ?thesis by simp
qed

theorem observers_keep_contents_witness:
  "wf_state example
   \<and> snd (Contains 20 example) = example \<and> snd (String fmt_int example) = example
   \<and> snd (Size example) = example \<and> snd (IsEmpty example) = example
   \<and> (\<exists>r st'. ToSlice 0 example = Some (r, st') \<and> snd st' = snd example
          \<and> contents st' = [10, 20, 30])
   \<and> (\<exists>c st'. Copy 0 example = Some (c, st') \<and> snd st' = snd example
          \<and> contents st' = [10, 20, 30])"
proof -
  have w: "wf_state example" by code_simp
  have c: "contents example = [10, 20, 30]" by code_simp
  from observers_keep_contents[OF w, of 20 fmt_int 0] c w show ?thesis by simp
qed

end
